theory Spec2Isabelle
  imports Main "HOL-Library.Log_Nat"
begin

section \<open>The LZW codec of comsci\_lzw.js\<close>

text \<open>
  The program is one JavaScript file: the dictionary coder (\<open>lzwCompress\<close>,
  \<open>lzwDecompress\<close>), the bit regrouping \<open>convertEncodingArrayUnitLength\<close> and its
  two callers. The embedding follows the source statement by statement. What JavaScript
  leaves implicit is written out: the truthiness tests, property reads that fall through
  to \<open>Object.prototype\<close>, the texts that string concatenation and \<open>join\<close> produce, the
  32-bit shifts, and the two loops that need not end.

  A byte string is a \<^typ>\<open>string\<close>: a JavaScript string all of whose characters have a
  code below 256, which is what \<open>_stringToUtf8\<close> produces and what \<open>_utf8ToString\<close>
  consumes. Those two conversions (built from \<open>encodeURIComponent\<close>, \<open>unescape\<close> and
  their inverses) are not modelled: \<open>lzwCompress\<close> below starts from the value of
  \<open>_stringToUtf8(inputData)\<close>, and \<open>lzwDecompress\<close> ends with the value of
  \<open>output.join('')\<close>, the argument of \<open>_utf8ToString\<close>.
\<close>

subsection \<open>Values\<close>

text \<open>
  The elements of the arrays that the program builds and reads: a one-character string, a
  number (an integer), the value of a property inherited from \<open>Object.prototype\<close>
  (a built-in function, or the prototype object itself for \<open>__proto__\<close>), or
  \<open>undefined\<close>. Strings of other lengths never enter an array of this program.
\<close>

datatype code = Chr char | Num int | Inherited string | Undefined

datatype error = BadlyCompressed | TypeError | RangeError

text \<open>\<open>const DICT_SIZE = 512; const BITS_PER_ENCODING = Math.ceil(Math.log2(DICT_SIZE));\<close>\<close>

definition DICT_SIZE :: int where
  "DICT_SIZE = 512"

definition BITS_PER_ENCODING :: nat where
  "BITS_PER_ENCODING = ceillog2 (nat DICT_SIZE)"

text \<open>The decimal text of a number, as \<open>ToString\<close> writes an integer.\<close>

fun decimal :: "nat \<Rightarrow> string" where
  "decimal n = (if n < 10 then [''0123456789'' ! n]
                else decimal (n div 10) @ [''0123456789'' ! (n mod 10)])"

declare decimal.simps [simp del]

definition number_text :: "int \<Rightarrow> string" where
  "number_text n = (if n < 0 then CHR ''-'' # decimal (nat (- n)) else decimal (nat n))"

text \<open>
  \<open>ToString\<close> of an array element. Node prints a built-in function as
  \<open>function name() { [native code] }\<close> and the prototype object as \<open>[object Object]\<close>.
\<close>

fun code_text :: "code \<Rightarrow> string" where
  "code_text (Chr c) = [c]"
| "code_text (Num n) = number_text n"
| "code_text (Inherited name) =
     (if name = ''__proto__'' then ''[object Object]''
      else ''function '' @ name @ ''() { [native code] }'')"
| "code_text Undefined = ''undefined''"

text \<open>Truthiness: a one-character string is not empty, a number is truthy unless zero.\<close>

fun truthy :: "code \<Rightarrow> bool" where
  "truthy (Chr c) = True"
| "truthy (Num n) = (n \<noteq> 0)"
| "truthy (Inherited name) = True"
| "truthy Undefined = False"

subsection \<open>Objects used as dictionaries\<close>

text \<open>
  \<open>let dict = {}\<close> creates an ordinary object: its own properties are a finite map from
  property names, and a read of a name that is not an own property continues in
  \<open>Object.prototype\<close>, whose properties are the twelve below.
\<close>

definition Object_prototype_names :: "string list" where
  "Object_prototype_names =
     [''constructor'', ''__defineGetter__'', ''__defineSetter__'', ''hasOwnProperty'',
      ''__lookupGetter__'', ''__lookupSetter__'', ''isPrototypeOf'', ''propertyIsEnumerable'',
      ''toString'', ''valueOf'', ''__proto__'', ''toLocaleString'']"

datatype 'v property = Own 'v | Proto string | Absent

definition obj_get :: "(string \<rightharpoonup> 'v) \<Rightarrow> string \<Rightarrow> 'v property" where
  "obj_get obj k =
     (case obj k of
        Some v \<Rightarrow> Own v
      | None \<Rightarrow> if k \<in> set Object_prototype_names then Proto k else Absent)"

text \<open>
  \<open>obj[k] = v\<close> creates or overwrites an own property, except for the name
  \<open>__proto__\<close>: that one is an accessor of \<open>Object.prototype\<close> whose setter ignores a
  value that is neither an object nor \<open>null\<close>.
\<close>

definition obj_set :: "(string \<rightharpoonup> 'v) \<Rightarrow> string \<Rightarrow> 'v \<Rightarrow> (string \<rightharpoonup> 'v)" where
  "obj_set obj k v = (if k = ''__proto__'' then obj else obj(k \<mapsto> v))"

text \<open>
  \<open>_buildDictionary\<close>: the 256 one-character strings, each mapped to itself, and the
  counter 256. The two callers store different values beside them (numbers in
  \<open>lzwCompress\<close>, longer strings in \<open>lzwDecompress\<close>), so the way a one-character
  string is written in the value type is the parameter \<open>str\<close>.
\<close>

definition buildDictionary :: "(char \<Rightarrow> 'v) \<Rightarrow> (string \<rightharpoonup> 'v) \<times> int" where
  "buildDictionary str =
     (fold (\<lambda>i dict. obj_set dict [char_of i] (str (char_of i))) [0..<256] Map.empty, 256)"

subsection \<open>lzwCompress\<close>

record ('v, 'o) lzw =
  output_arr :: "'o list"
  dict :: "string \<rightharpoonup> 'v"
  dictLen :: int

record cstate = "(code, code) lzw" +
  s :: string

text \<open>The value of \<open>dict[k]\<close> in \<open>lzwCompress\<close>, where own values are array elements.\<close>

definition dict_read :: "(string \<rightharpoonup> code) \<Rightarrow> string \<Rightarrow> code" where
  "dict_read d k = (case obj_get d k of Own v \<Rightarrow> v | Proto name \<Rightarrow> Inherited name | Absent \<Rightarrow> Undefined)"

text \<open>\<open>if(dictLen >= DICT_SIZE) { [dict, dictLen] = _buildDictionary(); }\<close>\<close>

definition reset_if_full :: "(char \<Rightarrow> 'v) \<Rightarrow> ('v, 'o, 'z) lzw_scheme \<Rightarrow> ('v, 'o, 'z) lzw_scheme" where
  "reset_if_full str st =
     (if dictLen st \<ge> DICT_SIZE
      then st\<lparr>dict := fst (buildDictionary str), dictLen := snd (buildDictionary str)\<rparr>
      else st)"

text \<open>\<open>output.push(dict[s]); dict[s + ch] = dictLen++; s = ch;\<close>\<close>

definition compress_emit :: "cstate \<Rightarrow> char \<Rightarrow> cstate" where
  "compress_emit st ch =
     st\<lparr>output_arr := output_arr st @ [dict_read (dict st) (s st)],
        dict := obj_set (dict st) (s st @ [ch]) (Num (dictLen st)),
        dictLen := dictLen st + 1,
        s := [ch]\<rparr>"

text \<open>One iteration of \<open>for(let ch of _stringToUtf8(inputData))\<close>.\<close>

definition compress_step :: "cstate \<Rightarrow> char \<Rightarrow> cstate" where
  "compress_step st ch =
     (if truthy (dict_read (dict st) (s st @ [ch]))
      then st\<lparr>s := s st @ [ch]\<rparr>
      else reset_if_full Chr (compress_emit st ch))"

definition compress_init :: cstate where
  "compress_init =
     \<lparr>output_arr = [], dict = fst (buildDictionary Chr), dictLen = snd (buildDictionary Chr), s = []\<rparr>"

definition compress_loop :: "cstate \<Rightarrow> string \<Rightarrow> cstate" where
  "compress_loop st bytes = fold (\<lambda>ch st. compress_step st ch) bytes st"

text \<open>
  \<open>lzwCompress\<close> returns the pair \<open>[output, dict]\<close>. Its argument here is the byte string
  \<open>_stringToUtf8(inputData)\<close>. The last statement, \<open>if(s) {output.push(dict[s]);}\<close>,
  tests that \<open>s\<close> is not the empty string.
\<close>

definition lzwCompress :: "string \<Rightarrow> code list \<times> (string \<rightharpoonup> code)" where
  "lzwCompress bytes =
     (let st = compress_loop compress_init bytes
      in (if s st \<noteq> [] then output_arr st @ [dict_read (dict st) (s st)] else output_arr st, dict st))"

subsection \<open>lzwDecompress\<close>

text \<open>
  \<open>prevcode\<close> starts as the first array element and is a string of any length from the
  second iteration on.
\<close>

datatype prev = Code code | Phrase string

fun prev_text :: "prev \<Rightarrow> string" where
  "prev_text (Code c) = code_text c"
| "prev_text (Phrase p) = p"

text \<open>
  The text of \<open>prevcode[0]\<close> inside the template string: the first character of a string,
  \<open>undefined\<close> for a number, a function or an empty string; reading a property of
  \<open>undefined\<close> throws a TypeError.
\<close>

fun prev_index0 :: "prev \<Rightarrow> error + string" where
  "prev_index0 (Code (Chr c)) = Inr [c]"
| "prev_index0 (Code (Num n)) = Inr ''undefined''"
| "prev_index0 (Code (Inherited name)) = Inr ''undefined''"
| "prev_index0 (Code Undefined) = Inl TypeError"
| "prev_index0 (Phrase []) = Inr ''undefined''"
| "prev_index0 (Phrase (c # p)) = Inr [c]"

text \<open>\<open>join('')\<close> writes nothing for \<open>undefined\<close> and \<open>ToString\<close> of any other element.\<close>

fun join_text :: "prev \<Rightarrow> string" where
  "join_text (Code Undefined) = []"
| "join_text p = prev_text p"

record dstate = "(string, prev) lzw" +
  prevcode :: prev

text \<open>
  \<open>currcode == dictLen\<close>: a number equals the counter when it is the same number; a
  one-character string is converted to a number first (a digit to its value, white space
  to 0, anything else to NaN); a function, the prototype object and \<open>undefined\<close> never
  equal a number.
\<close>

definition char_number :: "char \<Rightarrow> int option" where
  "char_number c =
     (let n = (of_char c :: nat) in
      if 48 \<le> n \<and> n \<le> 57 then Some (int n - 48)
      else if n \<in> {9, 10, 11, 12, 13, 32, 160} then Some 0
      else None)"

fun loose_eq :: "code \<Rightarrow> int \<Rightarrow> bool" where
  "loose_eq (Num m) n = (m = n)"
| "loose_eq (Chr c) n = (char_number c = Some n)"
| "loose_eq (Inherited name) n = False"
| "loose_eq Undefined n = False"

text \<open>
  \<open>let data = dict[currcode]; if(!data) { ... }\<close>. The property name is the text of
  \<open>currcode\<close>; it is never the name of a property of \<open>Object.prototype\<close> (lemma
  \<open>code_text_not_inherited\<close>), so the read is decided by the own properties. Their
  values are strings, and the empty string is falsy like \<open>undefined\<close>. The result is
  \<open>data\<close> after the \<open>if\<close>, or the error thrown inside it.
\<close>

definition resolve :: "dstate \<Rightarrow> code \<Rightarrow> error + string" where
  "resolve st currcode =
     (case dict st (code_text currcode) of
        Some (c # cs) \<Rightarrow> Inr (c # cs)
      | _ \<Rightarrow>
          if loose_eq currcode (dictLen st)
          then (case prev_index0 (prevcode st) of
                  Inl e \<Rightarrow> Inl e
                | Inr first \<Rightarrow> Inr (prev_text (prevcode st) @ first))
          else Inl BadlyCompressed)"

text \<open>
  \<open>output.push(data); dict[dictLen++] = prevcode + data[0]; prevcode = data;\<close> where
  \<open>data\<close> is a string, so that \<open>+\<close> concatenates the text of \<open>prevcode\<close> and the text of
  \<open>data[0]\<close>.
\<close>

definition decompress_emit :: "dstate \<Rightarrow> string \<Rightarrow> dstate" where
  "decompress_emit st data =
     st\<lparr>output_arr := output_arr st @ [Phrase data],
        dict := obj_set (dict st) (number_text (dictLen st))
                  (prev_text (prevcode st) @ (case data of [] \<Rightarrow> ''undefined'' | c # _ \<Rightarrow> [c])),
        dictLen := dictLen st + 1,
        prevcode := Phrase data\<rparr>"

text \<open>One iteration of \<open>for(let currcode of encodingArray.slice(1))\<close>.\<close>

definition decompress_step :: "dstate \<Rightarrow> code \<Rightarrow> error + dstate" where
  "decompress_step st currcode =
     (case resolve st currcode of
        Inl e \<Rightarrow> Inl e
      | Inr data \<Rightarrow> Inr (reset_if_full (\<lambda>c. [c]) (decompress_emit st data)))"

fun decompress_loop :: "dstate \<Rightarrow> code list \<Rightarrow> error + dstate" where
  "decompress_loop st [] = Inr st"
| "decompress_loop st (currcode # rest) =
     (case decompress_step st currcode of
        Inl e \<Rightarrow> Inl e
      | Inr st' \<Rightarrow> decompress_loop st' rest)"

text \<open>
  \<open>let prevcode = encodingArray[0]; output.push(prevcode);\<close> where the element of an
  empty array at index 0 is \<open>undefined\<close>.
\<close>

definition decompress_init :: "code list \<Rightarrow> dstate" where
  "decompress_init encodingArray =
     (let first = (case encodingArray of [] \<Rightarrow> Undefined | c # _ \<Rightarrow> c)
      in \<lparr>output_arr = [Code first],
          dict = fst (buildDictionary (\<lambda>c. [c])),
          dictLen = snd (buildDictionary (\<lambda>c. [c])),
          prevcode = Code first\<rparr>)"

text \<open>The result is the byte string \<open>output.join('')\<close>, or the error that was thrown.\<close>

definition lzwDecompress :: "code list \<Rightarrow> error + string" where
  "lzwDecompress encodingArray =
     (case decompress_loop (decompress_init encodingArray) (drop 1 encodingArray) of
        Inl e \<Rightarrow> Inl e
      | Inr st \<Rightarrow> Inr (concat (map join_text (output_arr st))))"

subsection \<open>convertEncodingArrayUnitLength\<close>

text \<open>
  \<open>ToInt32\<close>, applied by \<open>>>=\<close> and \<open><<=\<close> to their left operand, and the remainder
  \<open>ch % 2\<close>, which has the sign of \<open>ch\<close>.
\<close>

definition to_int32 :: "int \<Rightarrow> int" where
  "to_int32 n = (n + 2 ^ 31) mod 2 ^ 32 - 2 ^ 31"

definition rem2 :: "int \<Rightarrow> int" where
  "rem2 ch = (if 0 \<le> ch then ch mod 2 else - ((- ch) mod 2))"

text \<open>
  \<open>while(ch){ binArr.push(ch % 2); ch >>= 1; }\<close> for a number \<open>ch\<close>. \<open>binArr\<close> holds,
  for each number pushed, the text that \<open>join('')\<close> writes for it. The loop does not end
  when the shifts reach \<open>-1\<close>: the value is then \<open>None\<close>.
\<close>

partial_function (option) bin_loop :: "int \<Rightarrow> string list \<Rightarrow> string list option" where
  "bin_loop ch binArr =
     (if ch = 0 then Some binArr
      else bin_loop (to_int32 ch div 2) (binArr @ [number_text (rem2 ch)]))"

declare bin_loop.simps [code]

text \<open>
  \<open>let ch = typeof(k) == "string" ? k.charCodeAt(0) : k;\<close> followed by the loop. A
  function or the prototype object is truthy, \<open>ch % 2\<close> is then NaN and \<open>ch >>= 1\<close> is 0:
  one iteration. \<open>undefined\<close> is falsy: no iteration.
\<close>

fun binArr_of :: "code \<Rightarrow> string list option" where
  "binArr_of (Chr c) = bin_loop (of_char c) []"
| "binArr_of (Num n) = bin_loop n []"
| "binArr_of (Inherited name) = Some [''NaN'']"
| "binArr_of Undefined = Some []"

text \<open>
  \<open>'0'.repeat(originalUnitLength - binArr.length) + binArr.reverse().join('')\<close>, where
  \<open>repeat\<close> throws a RangeError for a negative count.
\<close>

definition unit_binary :: "nat \<Rightarrow> string list \<Rightarrow> error + string" where
  "unit_binary originalUnitLength binArr =
     (if originalUnitLength < length binArr then Inl RangeError
      else Inr (replicate (originalUnitLength - length binArr) CHR ''0'' @ concat (rev binArr)))"

text \<open>
  The first loop, \<open>for(let k of encodingArray)\<close>, which fills \<open>binaryFormArr\<close>: \<open>None\<close>
  when the inner loop of some element does not end, the error when \<open>repeat\<close> throws.
\<close>

fun binaryFormArr_loop :: "nat \<Rightarrow> code list \<Rightarrow> string list \<Rightarrow> (error + string list) option" where
  "binaryFormArr_loop originalUnitLength [] binaryFormArr = Some (Inr binaryFormArr)"
| "binaryFormArr_loop originalUnitLength (k # rest) binaryFormArr =
     (case binArr_of k of
        None \<Rightarrow> None
      | Some binArr \<Rightarrow>
          (case unit_binary originalUnitLength binArr of
             Inl e \<Rightarrow> Some (Inl e)
           | Inr u \<Rightarrow> binaryFormArr_loop originalUnitLength rest (binaryFormArr @ [u])))"

text \<open>
  \<open>for(let j=0;j<targetUnitLength;j++) { out <<= 1; let bit = byteBinary[j];
  if(bit == '1'){ out += 1; } }\<close> starting from \<open>out = 0\<close>. An index past the end of
  \<open>byteBinary\<close> reads \<open>undefined\<close>, which is not \<open>'1'\<close>.
\<close>

definition unit_out :: "nat \<Rightarrow> string \<Rightarrow> int" where
  "unit_out targetUnitLength byteBinary =
     fold (\<lambda>j out. to_int32 (out * 2) +
                    (if j < length byteBinary \<and> byteBinary ! j = CHR ''1'' then 1 else 0))
          [0..<targetUnitLength] 0"

text \<open>
  The second loop, \<open>for(let i=0;i<binaryForm.length;i+=targetUnitLength)\<close>, with
  \<open>byteBinary = binaryForm.substr(i,targetUnitLength)\<close>. With \<open>targetUnitLength = 0\<close> and
  a non-empty \<open>binaryForm\<close> it does not end.
\<close>

partial_function (option) output_loop :: "string \<Rightarrow> nat \<Rightarrow> bool \<Rightarrow> nat \<Rightarrow> int list \<Rightarrow> int list option" where
  "output_loop binaryForm targetUnitLength discardIncompleteUnit i out_arr =
     (if i < length binaryForm
      then (let byteBinary = take targetUnitLength (drop i binaryForm)
            in if discardIncompleteUnit \<and> length byteBinary < targetUnitLength
               then output_loop binaryForm targetUnitLength discardIncompleteUnit
                      (i + targetUnitLength) out_arr
               else output_loop binaryForm targetUnitLength discardIncompleteUnit
                      (i + targetUnitLength) (out_arr @ [unit_out targetUnitLength byteBinary]))
      else Some out_arr)"

declare output_loop.simps [code]

text \<open>
  The whole function: \<open>None\<close> when the call does not return, \<open>Some (Inl e)\<close> when it
  throws, \<open>Some (Inr output)\<close> when it returns the array of numbers \<open>output\<close>.
\<close>

definition convertEncodingArrayUnitLength ::
    "code list \<Rightarrow> nat \<Rightarrow> nat \<Rightarrow> bool \<Rightarrow> (error + int list) option" where
  "convertEncodingArrayUnitLength encodingArray originalUnitLength targetUnitLength
       discardIncompleteUnit =
     (case binaryFormArr_loop originalUnitLength encodingArray [] of
        None \<Rightarrow> None
      | Some (Inl e) \<Rightarrow> Some (Inl e)
      | Some (Inr binaryFormArr) \<Rightarrow>
          (case output_loop (concat binaryFormArr) targetUnitLength discardIncompleteUnit 0 [] of
             None \<Rightarrow> None
           | Some out_arr \<Rightarrow> Some (Inr out_arr)))"

text \<open>
  \<open>return convertEncodingArrayUnitLength(encodingArray, BITS_PER_ENCODING, 8, false);\<close>
\<close>

definition getByteArrayFromEncodingArray :: "code list \<Rightarrow> (error + int list) option" where
  "getByteArrayFromEncodingArray encodingArray =
     convertEncodingArrayUnitLength encodingArray BITS_PER_ENCODING 8 False"

text \<open>
  \<open>return convertEncodingArrayUnitLength(byteArray, 8, BITS_PER_ENCODING, true)
  .map(v => v > 255 ? v : String.fromCharCode(v));\<close>
\<close>

definition getEncodingArrayFromByteArray :: "code list \<Rightarrow> (error + code list) option" where
  "getEncodingArrayFromByteArray byteArray =
     (case convertEncodingArrayUnitLength byteArray 8 BITS_PER_ENCODING True of
        None \<Rightarrow> None
      | Some (Inl e) \<Rightarrow> Some (Inl e)
      | Some (Inr vs) \<Rightarrow> Some (Inr (map (\<lambda>v. if v > 255 then Num v else Chr (char_of v)) vs)))"

text \<open>
  The round trip of \<open>demoForNodeJs\<close>: compress, pack into bytes, unpack, decompress.
\<close>

definition roundtrip :: "string \<Rightarrow> (error + string) option" where
  "roundtrip bytes =
     (case getByteArrayFromEncodingArray (fst (lzwCompress bytes)) of
        None \<Rightarrow> None
      | Some (Inl e) \<Rightarrow> Some (Inl e)
      | Some (Inr compressResult) \<Rightarrow>
          (case getEncodingArrayFromByteArray (map Num compressResult) of
             None \<Rightarrow> None
           | Some (Inl e) \<Rightarrow> Some (Inl e)
           | Some (Inr encodingArray) \<Rightarrow> Some (lzwDecompress encodingArray)))"

subsection \<open>Notions used to state the results on regrouping\<close>

text \<open>
  The binary digits of a natural number, least significant first, as the inner loop
  pushes them; the same number written with exactly \<open>w\<close> digits, most significant
  first; the number that a string of digits denotes; and the cutting of a list into
  consecutive groups of \<open>t\<close> elements, the last one possibly shorter.
\<close>

fun lsb_digits :: "nat \<Rightarrow> string list" where
  "lsb_digits n = (if n = 0 then [] else (if even n then ''0'' else ''1'') # lsb_digits (n div 2))"

declare lsb_digits.simps [simp del]

fun bitstring :: "nat \<Rightarrow> nat \<Rightarrow> string" where
  "bitstring 0 n = []"
| "bitstring (Suc w) n = bitstring w (n div 2) @ [if odd n then CHR ''1'' else CHR ''0'']"

definition bitval :: "string \<Rightarrow> nat" where
  "bitval bs = foldl (\<lambda>v c. 2 * v + (if c = CHR ''1'' then 1 else 0)) 0 bs"

definition binary :: "string \<Rightarrow> bool" where
  "binary bs = (set bs \<subseteq> {CHR ''0'', CHR ''1''})"

function groups :: "nat \<Rightarrow> 'a list \<Rightarrow> 'a list list" where
  "groups t xs = (if t = 0 \<or> xs = [] then [] else take t xs # groups t (drop t xs))"
  by pat_completeness auto
termination
  by (relation "measure (\<lambda>(t, xs). length xs)") auto

declare groups.simps [simp del]

text \<open>
  An array element fits \<open>w\<close> bits when it is a character or a number from 0 up to, and
  not including, both \<open>2 ^ w\<close> and \<open>2 ^ 31\<close>; \<open>unit_nat\<close> is then the number that the
  inner loop starts from.
\<close>

definition fits :: "nat \<Rightarrow> code \<Rightarrow> bool" where
  "fits w k = (case k of Chr c \<Rightarrow> (of_char c :: nat) < 2 ^ w
                       | Num n \<Rightarrow> 0 \<le> n \<and> n < 2 ^ w \<and> n < 2 ^ 31
                       | _ \<Rightarrow> False)"

fun unit_nat :: "code \<Rightarrow> nat" where
  "unit_nat (Chr c) = of_char c"
| "unit_nat (Num n) = nat n"
| "unit_nat _ = 0"

text \<open>
  The value of the variable \<open>binaryForm\<close> for an array whose elements fit \<open>w\<close> bits:
  the \<open>w\<close>-digit texts of the elements, one after the other.
\<close>

definition binaryForm :: "nat \<Rightarrow> code list \<Rightarrow> string" where
  "binaryForm w arr = concat (map (\<lambda>k. bitstring w (unit_nat k)) arr)"

subsection \<open>Invariants of the two loops\<close>

text \<open>
  What holds of the state of \<open>lzwCompress\<close> before and after every iteration: the
  counter is from 256 up to, not including, \<open>DICT_SIZE\<close>; the dictionary has as many
  own properties as the counter says; every value stored in it is truthy.
\<close>

definition cinv :: "cstate \<Rightarrow> bool" where
  "cinv st = (256 \<le> dictLen st \<and> dictLen st < DICT_SIZE
              \<and> card (dom (dict st)) = nat (dictLen st)
              \<and> (\<forall>k v. dict st k = Some v \<longrightarrow> truthy v))"

text \<open>
  The same for \<open>lzwDecompress\<close>, whose dictionary has the 256 one-character names and
  the decimal texts of 256 up to, not including, the counter, all with non-empty strings
  as values.
\<close>

definition dinv :: "dstate \<Rightarrow> bool" where
  "dinv st = (256 \<le> dictLen st \<and> dictLen st < DICT_SIZE
              \<and> dom (dict st) = range (\<lambda>c. [c]) \<union> number_text ` {256..<dictLen st}
              \<and> (\<forall>k v. dict st k = Some v \<longrightarrow> v \<noteq> []))"

text \<open>The value of a decimal digit, to read a decimal text back.\<close>

definition digit_val :: "char \<Rightarrow> nat" where
  "digit_val c = of_char c - 48"

subsection \<open>The dictionary sizes that the two loops observe\<close>

text \<open>
  The values of \<open>dictLen\<close> in \<open>lzwCompress\<close>, one for each iteration that inserts an
  entry, taken at the end of the iteration (after the possible reset); and the values of
  \<open>dictLen\<close> in \<open>lzwDecompress\<close>, one at the end of each iteration, up to the
  iteration that throws.
\<close>

fun compress_dictLens :: "cstate \<Rightarrow> string \<Rightarrow> int list" where
  "compress_dictLens st [] = []"
| "compress_dictLens st (ch # rest) =
     (if truthy (dict_read (dict st) (s st @ [ch]))
      then compress_dictLens (compress_step st ch) rest
      else dictLen (compress_step st ch) # compress_dictLens (compress_step st ch) rest)"

fun decompress_dictLens :: "dstate \<Rightarrow> code list \<Rightarrow> int list" where
  "decompress_dictLens st [] = []"
| "decompress_dictLens st (currcode # rest) =
     (case decompress_step st currcode of
        Inl e \<Rightarrow> []
      | Inr st' \<Rightarrow> dictLen st' # decompress_dictLens st' rest)"

section \<open>Properties\<close>

subsection \<open>The constants and the initial dictionary\<close>

lemma BITS_PER_ENCODING_9: "BITS_PER_ENCODING = 9"
proof -
  have "nat DICT_SIZE = 2 ^ 9" by (simp add: DICT_SIZE_def)
  then show ?thesis unfolding BITS_PER_ENCODING_def by (simp only: ceillog2_2_power)
qed

lemma obj_set_char: "obj_set d [c] v = d([c] \<mapsto> v)"
  by (simp add: obj_set_def)

lemma buildDictionary_fold:
  "n \<le> 256 \<Longrightarrow>
   fold (\<lambda>i dict. obj_set dict [char_of i] (str (char_of i))) [0..<n] Map.empty k =
     (case k of [c] \<Rightarrow> if of_char c < n then Some (str c) else None | _ \<Rightarrow> None)"
proof (induction n)
  case 0
  then show ?case by (simp split: list.split)
next
  case (Suc n)
  then have n: "n < 256" by simp
  have oc: "of_char (char_of n) = n" using n by simp
  show ?case
  proof (cases "k = [char_of n]")
    case True
    then show ?thesis using Suc oc by (simp add: obj_set_char)
  next
    case False
    have "\<And>c. k = [c] \<Longrightarrow> of_char c \<noteq> n"
      using False by auto
    then show ?thesis using Suc False
      by (auto simp add: obj_set_char split: list.split simp: less_Suc_eq)
  qed
qed

text \<open>The initial dictionary has exactly the 256 one-character names.\<close>

lemma dict_buildDictionary:
  "fst (buildDictionary str) k = (case k of [c] \<Rightarrow> Some (str c) | _ \<Rightarrow> None)"
proof -
  have "(of_char c :: nat) < 256" for c by simp
  then show ?thesis
    unfolding buildDictionary_def by (simp add: buildDictionary_fold split: list.split)
qed

lemma dictLen_buildDictionary: "snd (buildDictionary str) = 256"
  by (simp add: buildDictionary_def)

lemmas compress_eval =
  lzwCompress_def compress_loop_def compress_init_def compress_step_def compress_emit_def
  reset_if_full_def dict_read_def obj_get_def obj_set_def dict_buildDictionary
  dictLen_buildDictionary DICT_SIZE_def Object_prototype_names_def

lemmas decompress_eval =
  lzwDecompress_def decompress_init_def decompress_step_def decompress_emit_def resolve_def
  reset_if_full_def obj_set_def dict_buildDictionary dictLen_buildDictionary DICT_SIZE_def
  number_text_def decimal.simps Let_def

subsection \<open>Empty input\<close>

text \<open>
  C9. \<open>lzwCompress\<close> on the empty input returns the empty code sequence: the loop body
  never runs, \<open>s\<close> is still the empty string at the end, and the final push is skipped.
  The function has no \<open>throw\<close> and returns its pair.
\<close>

theorem lzwCompress_empty:
  "fst (lzwCompress []) = [] \<and> s (compress_loop compress_init []) = []"
  by (simp add: lzwCompress_def compress_loop_def compress_init_def)

subsection \<open>The demo text\<close>

text \<open>
  C8. The thirteen characters \<open>fffffffffffff\<close> are compressed to five codes, fewer
  than thirteen. The second code, 256, reaches \<open>lzwDecompress\<close> before the entry 256
  exists: the dictionary has no such key, the counter is 256, and the phrase is rebuilt
  as \<open>prevcode\<close> followed by its first character. Decompressing the five codes gives
  the thirteen characters back.
\<close>

theorem demo_text_roundtrip:
  "fst (lzwCompress ''fffffffffffff'') = [Chr CHR ''f'', Num 256, Num 257, Num 258, Num 257]
   \<and> length (fst (lzwCompress ''fffffffffffff'')) < 13
   \<and> dict (decompress_init (fst (lzwCompress ''fffffffffffff''))) (code_text (Num 256)) = None
   \<and> dictLen (decompress_init (fst (lzwCompress ''fffffffffffff''))) = 256
   \<and> resolve (decompress_init (fst (lzwCompress ''fffffffffffff''))) (Num 256) = Inr ''ff''
   \<and> lzwDecompress (fst (lzwCompress ''fffffffffffff'')) = Inr ''fffffffffffff''"
proof -
  have c: "fst (lzwCompress ''fffffffffffff'') = [Chr CHR ''f'', Num 256, Num 257, Num 258, Num 257]"
    by (simp add: compress_eval)
  have d: "lzwDecompress [Chr CHR ''f'', Num 256, Num 257, Num 258, Num 257] = Inr ''fffffffffffff''"
    by (simp add: decompress_eval)
  have r: "dict (decompress_init [Chr CHR ''f'', Num 256, Num 257, Num 258, Num 257]) (code_text (Num 256)) = None
     \<and> dictLen (decompress_init [Chr CHR ''f'', Num 256, Num 257, Num 258, Num 257]) = 256
     \<and> resolve (decompress_init [Chr CHR ''f'', Num 256, Num 257, Num 258, Num 257]) (Num 256) = Inr ''ff''"
    by (simp add: decompress_eval)
  show ?thesis using d r unfolding c by simp
qed

subsection \<open>Bit regrouping\<close>

lemma to_int32_id: "- (2 ^ 31) \<le> n \<Longrightarrow> n < 2 ^ 31 \<Longrightarrow> to_int32 n = n"
  by (simp add: to_int32_def)

lemma number_text_0: "number_text 0 = ''0''"
  by (simp add: number_text_def decimal.simps)
lemma number_text_1: "number_text 1 = ''1''"
  by (simp add: number_text_def decimal.simps)

lemma bin_loop_nat:
  "n < 2 ^ 31 \<Longrightarrow> bin_loop (int n) binArr = Some (binArr @ lsb_digits n)"
proof (induction n arbitrary: binArr rule: less_induct)
  case (less n)
  show ?case
  proof (cases "n = 0")
    case True
    then show ?thesis by (subst bin_loop.simps) (simp add: lsb_digits.simps)
  next
    case False
    have t: "to_int32 (int n) = int n" using less.prems by (intro to_int32_id) auto
    have d: "int n div 2 = int (n div 2)" by simp
    have "int n mod 2 = (if even n then 0 else 1)" by presburger
    then have r: "number_text (rem2 (int n)) = (if even n then ''0'' else ''1'')"
      by (simp add: rem2_def number_text_0 number_text_1)
    have "bin_loop (int n) binArr = bin_loop (int (n div 2)) (binArr @ [if even n then ''0'' else ''1''])"
      using False by (subst bin_loop.simps) (simp only: t d r, simp)
    also have "\<dots> = Some ((binArr @ [if even n then ''0'' else ''1'']) @ lsb_digits (n div 2))"
      using False less.prems by (intro less.IH) auto
    finally show ?thesis using False by (subst lsb_digits.simps) simp
  qed
qed

lemma length_bitstring [simp]: "length (bitstring w n) = w"
  by (induction w arbitrary: n) auto

lemma bitstring_0: "bitstring w 0 = replicate w CHR ''0''"
  by (induction w) (auto simp: replicate_append_same)

lemma lsb_digits_pad:
  "n < 2 ^ w \<Longrightarrow> length (lsb_digits n) \<le> w \<and>
     replicate (w - length (lsb_digits n)) CHR ''0'' @ concat (rev (lsb_digits n)) = bitstring w n"
proof (induction w arbitrary: n)
  case 0
  then show ?case by (simp add: lsb_digits.simps)
next
  case (Suc w)
  show ?case
  proof (cases "n = 0")
    case True
    then show ?thesis using bitstring_0[of "Suc w"] by (simp add: lsb_digits.simps del: bitstring.simps)
  next
    case False
    have "n div 2 < 2 ^ w" using Suc.prems by auto
    from Suc.IH[OF this] show ?thesis using False
      by (subst (1 2 3) lsb_digits.simps) auto
  qed
qed

lemma lsb_digits_long: "2 ^ w \<le> n \<Longrightarrow> w < length (lsb_digits n)"
proof (induction w arbitrary: n)
  case 0
  then show ?case by (subst lsb_digits.simps) auto
next
  case (Suc w)
  then have "2 ^ w \<le> n div 2" by auto
  moreover have "(0::nat) < 2 ^ Suc w" by simp
  then have "n \<noteq> 0" using Suc.prems by linarith
  ultimately show ?case using Suc.IH[of "n div 2"] by (subst lsb_digits.simps) auto
qed


lemma bitval_snoc: "bitval (bs @ [c]) = 2 * bitval bs + (if c = CHR ''1'' then 1 else 0)"
  by (simp add: bitval_def)

lemma bitval_Nil [simp]: "bitval [] = 0"
  by (simp add: bitval_def)

lemma bitval_bitstring: "bitval (bitstring w n) = n mod 2 ^ w"
proof (induction w arbitrary: n)
  case 0
  then show ?case by simp
next
  case (Suc w)
  have "n mod (2 * 2 ^ w) = 2 * (n div 2 mod 2 ^ w) + n mod 2"
    by (simp add: mod_mult2_eq mult.commute)
  then show ?case using Suc[of "n div 2"]
    by (auto simp: bitval_snoc odd_iff_mod_2_eq_one)
qed

lemma binary_bitstring: "binary (bitstring w n)"
  by (induction w arbitrary: n) (auto simp: binary_def)

lemma bitval_less: "bitval bs < 2 ^ length bs"
proof (induction bs rule: rev_induct)
  case Nil
  then show ?case by simp
next
  case (snoc c bs)
  then show ?case by (auto simp: bitval_snoc)
qed

lemma bitstring_bitval: "binary bs \<Longrightarrow> bitstring (length bs) (bitval bs) = bs"
proof (induction bs rule: rev_induct)
  case Nil
  then show ?case by simp
next
  case (snoc c bs)
  then have b: "binary bs" and c: "c = CHR ''0'' \<or> c = CHR ''1''"
    by (auto simp: binary_def)
  have IH: "bitstring (length bs) (bitval bs) = bs" by (rule snoc.IH[OF b])
  from c show ?case
  proof
    assume "c = CHR ''0''"
    then show ?thesis by (simp add: bitval_snoc IH)
  next
    assume "c = CHR ''1''"
    then show ?thesis by (simp add: bitval_snoc IH)
  qed
qed

text \<open>\<open>unit_out\<close> on a group, for a width at which \<open><<=\<close> does not overflow.\<close>

lemma unit_out_fold:
  "unit_out t bs = fold (\<lambda>c out. to_int32 (out * 2) + (if c = CHR ''1'' then 1 else 0))
                     (take t bs @ replicate (t - length bs) CHR ''0'') 0"
proof -
  let ?ps = "take t bs @ replicate (t - length bs) CHR ''0''"
  have len: "length ?ps = t" by auto
  have nth: "\<And>j. j < t \<Longrightarrow> (?ps ! j = CHR ''1'') = (j < length bs \<and> bs ! j = CHR ''1'')"
    by (auto simp: nth_append)
  have "fold (\<lambda>c out. to_int32 (out * 2) + (if c = CHR ''1'' then 1 else 0)) ?ps 0
      = fold (\<lambda>c out. to_int32 (out * 2) + (if c = CHR ''1'' then 1 else 0)) (map (\<lambda>j. ?ps ! j) [0..<t]) 0"
    using len by (metis map_nth)
  also have "\<dots> = fold (\<lambda>j out. to_int32 (out * 2) + (if ?ps ! j = CHR ''1'' then 1 else 0)) [0..<t] 0"
    by (simp add: fold_map comp_def)
  also have "\<dots> = unit_out t bs"
    unfolding unit_out_def by (rule fold_cong) (auto simp: nth)
  finally show ?thesis by simp
qed

lemma fold_bits_bitval:
  "length bs + k \<le> 31 \<Longrightarrow> 0 \<le> a \<Longrightarrow> a < 2 ^ k \<Longrightarrow>
   fold (\<lambda>c out. to_int32 (out * 2) + (if c = CHR ''1'' then 1 else 0)) bs a
     = int (foldl (\<lambda>v c. 2 * v + (if c = CHR ''1'' then 1 else 0)) (nat a) bs)"
proof (induction bs arbitrary: a k)
  case Nil
  then show ?case by simp
next
  case (Cons c bs)
  have "a < 2 ^ 30"
  proof -
    have "k \<le> 30" using Cons.prems by simp
    then have "(2::int) ^ k \<le> 2 ^ 30" by (intro power_increasing) auto
    then show ?thesis using Cons.prems by linarith
  qed
  then have t: "to_int32 (a * 2) = a * 2" using Cons.prems by (intro to_int32_id) auto
  let ?a' = "a * 2 + (if c = CHR ''1'' then 1 else 0)"
  have "length bs + Suc k \<le> 31" using Cons.prems by simp
  moreover have "0 \<le> ?a'" using Cons.prems by auto
  moreover have "?a' < 2 ^ Suc k" using Cons.prems by auto
  ultimately have "fold (\<lambda>c out. to_int32 (out * 2) + (if c = CHR ''1'' then 1 else 0)) bs ?a'
     = int (foldl (\<lambda>v c. 2 * v + (if c = CHR ''1'' then 1 else 0)) (nat ?a') bs)"
    by (rule Cons.IH)
  moreover have "nat ?a' = 2 * nat a + (if c = CHR ''1'' then 1 else 0)"
    using Cons.prems by (auto simp: nat_add_distrib nat_mult_distrib)
  ultimately show ?case using t by simp
qed

lemma unit_out_bitval:
  "t \<le> 31 \<Longrightarrow> unit_out t bs = int (bitval (take t bs @ replicate (t - length bs) CHR ''0''))"
  using fold_bits_bitval[of "take t bs @ replicate (t - length bs) CHR ''0''" 0 0]
  by (simp add: unit_out_fold bitval_def)


lemma groups_Nil [simp]: "groups t [] = []"
  by (simp add: groups.simps)

lemma groups_0 [simp]: "groups 0 xs = []"
  by (simp add: groups.simps)

lemma groups_step: "0 < t \<Longrightarrow> xs \<noteq> [] \<Longrightarrow> groups t xs = take t xs # groups t (drop t xs)"
  by (subst groups.simps) simp

lemma groups_append: "0 < t \<Longrightarrow> length ys = t \<Longrightarrow> groups t (ys @ zs) = ys # groups t zs"
  by (subst groups.simps) auto

lemma groups_concat:
  "0 < t \<Longrightarrow> \<forall>ys \<in> set yss. length ys = t \<Longrightarrow> groups t (concat yss) = yss"
  by (induction yss) (auto simp: groups_append)

lemma concat_groups: "0 < t \<Longrightarrow> concat (groups t xs) = xs"
proof (induction "length xs" arbitrary: xs rule: less_induct)
  case less
  show ?case
  proof (cases "xs = []")
    case True
    then show ?thesis by simp
  next
    case False
    then have "length (drop t xs) < length xs" using less.prems by simp
    then have "concat (groups t (drop t xs)) = drop t xs" using less by blast
    then show ?thesis using False less.prems by (simp add: groups_step)
  qed
qed

lemma groups_full:
  "0 < t \<Longrightarrow> t dvd length xs \<Longrightarrow> g \<in> set (groups t xs) \<Longrightarrow> length g = t"
proof (induction "length xs" arbitrary: xs rule: less_induct)
  case less
  show ?case
  proof (cases "xs = []")
    case True
    then show ?thesis using less.prems by simp
  next
    case False
    have le: "t \<le> length xs" using False less.prems by (intro dvd_imp_le) auto
    have gs: "groups t xs = take t xs # groups t (drop t xs)"
      using less.prems(1) False by (rule groups_step)
    have "g = take t xs \<or> g \<in> set (groups t (drop t xs))"
      using less.prems(3) unfolding gs by simp
    then show ?thesis
    proof
      assume "g = take t xs"
      then show ?thesis using le by simp
    next
      assume a: "g \<in> set (groups t (drop t xs))"
      have 1: "length (drop t xs) < length xs" using False less.prems(1) by simp
      have 2: "t dvd length (drop t xs)" using less.prems(2) dvd_diff_nat[of t "length xs" t] by simp
      show ?thesis by (rule less.hyps[OF 1 less.prems(1) 2 a])
    qed
  qed
qed

lemma length_groups: "0 < t \<Longrightarrow> length (groups t xs) = (length xs + (t - 1)) div t"
proof (induction "length xs" arbitrary: xs rule: less_induct)
  case less
  show ?case
  proof (cases "xs = []")
    case True
    then show ?thesis using less.prems by simp
  next
    case False
    let ?n = "length xs"
    have n: "0 < ?n" using False by simp
    have "length (drop t xs) < length xs" using False less.prems by simp
    then have IH: "length (groups t (drop t xs)) = (length (drop t xs) + (t - 1)) div t"
      using less by blast
    have a: "(?n - t + (t - 1)) div t = (?n - 1) div t"
    proof (cases "t \<le> ?n")
      case True
      then have "?n - t + (t - 1) = ?n - 1" using less.prems by simp
      then show ?thesis by simp
    next
      case False
      then show ?thesis by simp
    qed
    have e: "?n + (t - 1) = (?n - 1) + t" using n less.prems by arith
    have "(?n + (t - 1)) div t = ((?n - 1) + t) div t" by (simp only: e)
    also have "\<dots> = Suc ((?n - 1) div t)" using less.prems by simp
    finally have b: "(?n + (t - 1)) div t = Suc ((?n - 1) div t)" .
    have gs: "groups t xs = take t xs # groups t (drop t xs)"
      using less.prems False by (rule groups_step)
    have "length (groups t xs) = Suc ((length (drop t xs) + (t - 1)) div t)"
      unfolding gs using IH by simp
    also have "\<dots> = Suc ((?n - 1) div t)" using a by simp
    finally show ?thesis using b by simp
  qed
qed

lemma output_loop_groups:
  "0 < t \<Longrightarrow>
   output_loop bf t d i out =
     Some (out @ map (unit_out t) (filter (\<lambda>g. \<not> (d \<and> length g < t)) (groups t (drop i bf))))"
proof (induction "length bf - i" arbitrary: i out rule: less_induct)
  case less
  show ?case
  proof (cases "i < length bf")
    case False
    then show ?thesis by (subst output_loop.simps) simp
  next
    case True
    then have ne: "drop i bf \<noteq> []" by simp
    have dd: "drop t (drop i bf) = drop (i + t) bf" by (simp add: add.commute)
    have m: "length bf - (i + t) < length bf - i" using True less.prems by simp
    have g: "groups t (drop i bf) = take t (drop i bf) # groups t (drop (i + t) bf)"
      using groups_step[OF less.prems ne] dd by simp
    show ?thesis
    proof (cases "d \<and> length (take t (drop i bf)) < t")
      case skip: True
      have "output_loop bf t d i out = output_loop bf t d (i + t) out"
        using True skip by (subst output_loop.simps) (simp add: Let_def)
      then show ?thesis using less.hyps[OF m less.prems] g skip by simp
    next
      case keep: False
      have "output_loop bf t d i out =
              output_loop bf t d (i + t) (out @ [unit_out t (take t (drop i bf))])"
        using True keep by (subst output_loop.simps) (auto simp add: Let_def)
      then show ?thesis using less.hyps[OF m less.prems] g keep by simp
    qed
  qed
qed


lemma binArr_of_fits:
  assumes "fits w k"
  shows "binArr_of k = Some (lsb_digits (unit_nat k))"
    and "unit_binary w (lsb_digits (unit_nat k)) = Inr (bitstring w (unit_nat k))"
proof -
  have v: "unit_nat k < 2 ^ w"
    using assms by (cases k) (auto simp: fits_def nat_less_iff)
  show "binArr_of k = Some (lsb_digits (unit_nat k))"
  proof (cases k)
    case (Chr c)
    have "(of_char c :: nat) < 2 ^ 31" using order_less_trans[of "of_char c :: nat" 256 "2 ^ 31"] by simp
    then show ?thesis using Chr bin_loop_nat[of "of_char c" "[]"] by (simp add: of_nat_of_char)
  next
    case (Num n)
    then have "nat n < 2 ^ 31" "int (nat n) = n" using assms by (auto simp: fits_def nat_less_iff)
    then show ?thesis using Num bin_loop_nat[of "nat n" "[]"] by simp
  qed (use assms in \<open>auto simp: fits_def\<close>)
  show "unit_binary w (lsb_digits (unit_nat k)) = Inr (bitstring w (unit_nat k))"
    using lsb_digits_pad[OF v] by (simp add: unit_binary_def)
qed

lemma binaryFormArr_loop_fits:
  "\<forall>k \<in> set arr. fits w k \<Longrightarrow>
   binaryFormArr_loop w arr acc = Some (Inr (acc @ map (\<lambda>k. bitstring w (unit_nat k)) arr))"
  by (induction arr arbitrary: acc) (auto simp: binArr_of_fits)

lemma convert_fits:
  "0 < t \<Longrightarrow> \<forall>k \<in> set arr. fits w k \<Longrightarrow>
   convertEncodingArrayUnitLength arr w t d =
     Some (Inr (map (unit_out t) (filter (\<lambda>g. \<not> (d \<and> length g < t))
                  (groups t (concat (map (\<lambda>k. bitstring w (unit_nat k)) arr))))))"
  by (simp add: convertEncodingArrayUnitLength_def binaryFormArr_loop_fits output_loop_groups)

lemma binary_concat: "binary (concat yss) = (\<forall>ys \<in> set yss. binary ys)"
  by (auto simp: binary_def)

lemma unit_out_full: "t \<le> 31 \<Longrightarrow> length g = t \<Longrightarrow> unit_out t g = int (bitval g)"
  by (simp add: unit_out_bitval)

lemma unit_out_bitstring: "w \<le> 31 \<Longrightarrow> n < 2 ^ w \<Longrightarrow> unit_out w (bitstring w n) = int n"
  by (simp add: unit_out_full bitval_bitstring)

lemma fits_unit_nat: "fits w k \<Longrightarrow> unit_nat k < 2 ^ w"
  by (cases k) (auto simp: fits_def nat_less_iff)

lemma fits_Num_bitval: "t \<le> 31 \<Longrightarrow> length g = t \<Longrightarrow> fits t (Num (int (bitval g)))"
proof -
  assume t: "t \<le> 31" and l: "length g = t"
  have "bitval g < 2 ^ t" using bitval_less[of g] l by simp
  moreover have "(2::nat) ^ t \<le> 2 ^ 31" using t by (intro power_increasing) auto
  ultimately have "bitval g < 2 ^ t \<and> bitval g < 2 ^ 31" by linarith
  then have "int (bitval g) < 2 ^ t \<and> int (bitval g) < 2 ^ 31"
    by (metis of_nat_less_iff of_nat_numeral of_nat_power)
  then show ?thesis by (simp add: fits_def)
qed

lemma length_binaryForm:
  "length (concat (map (\<lambda>k. bitstring w (f k)) arr)) = w * length arr"
  by (induction arr) auto

lemma regroup_inverse:
  assumes w: "w \<le> 31" and t: "0 < t" "t \<le> 31"
    and f: "\<forall>k \<in> set arr. fits w k" and dv: "t dvd w * length arr"
  shows "\<exists>bytes. convertEncodingArrayUnitLength arr w t d = Some (Inr bytes)
           \<and> length bytes = w * length arr div t
           \<and> (0 < w \<longrightarrow> convertEncodingArrayUnitLength (map Num bytes) t w d' = Some (Inr (map (\<lambda>k. int (unit_nat k)) arr)))"
proof -
  let ?B = "concat (map (\<lambda>k. bitstring w (unit_nat k)) arr)"
  let ?G = "groups t ?B"
  let ?bytes = "map (\<lambda>g. int (bitval g)) ?G"
  have lB: "length ?B = w * length arr" by (rule length_binaryForm)
  have bB: "binary ?B" by (simp add: binary_concat binary_bitstring)
  have full: "\<And>g. g \<in> set ?G \<Longrightarrow> length g = t"
    using groups_full[OF t(1), of ?B] dv lB by simp
  have cG: "concat ?G = ?B" by (rule concat_groups[OF t(1)])
  have "binary (concat ?G)" using bB by (simp only: cG)
  then have bin: "\<And>g. g \<in> set ?G \<Longrightarrow> binary g"
    by (simp only: binary_concat)
  have keep: "filter (\<lambda>g. \<not> (d \<and> length g < t)) ?G = ?G"
    using full by (auto simp: filter_id_conv)
  have c1: "convertEncodingArrayUnitLength arr w t d = Some (Inr (map (unit_out t) ?G))"
    using convert_fits[OF t(1) f, of d] keep by simp
  have m1: "map (unit_out t) ?G = ?bytes"
    using full t(2) by (auto simp: unit_out_full)
  have len: "length ?bytes = w * length arr div t"
  proof -
    obtain q where q: "w * length arr = t * q" using dv by (auto elim: dvdE)
    have "(t - 1 + q * t) div t = q + (t - 1) div t" using t(1) by (intro div_mult_self1) simp
    moreover have "t * q + (t - 1) = t - 1 + q * t" by (simp add: mult.commute)
    ultimately have "(t * q + (t - 1)) div t = q" using t(1) by simp
    then show ?thesis using length_groups[OF t(1), of ?B] lB q t(1) by simp
  qed
  have inv: "convertEncodingArrayUnitLength (map Num ?bytes) t w d' = Some (Inr (map (\<lambda>k. int (unit_nat k)) arr))"
    if w0: "0 < w"
  proof -
    have fb: "\<forall>k \<in> set (map Num ?bytes). fits t k"
      using full t(2) by (auto simp: fits_Num_bitval)
    have "map (\<lambda>k. bitstring t (unit_nat k)) (map Num ?bytes) = map (\<lambda>g. bitstring t (bitval g)) ?G"
      by (simp add: comp_def)
    also have "\<dots> = ?G"
    proof (rule map_idI)
      fix g assume g: "g \<in> set ?G"
      show "bitstring t (bitval g) = g"
        using bitstring_bitval[OF bin[OF g]] full[OF g] by simp
    qed
    finally have B': "concat (map (\<lambda>k. bitstring t (unit_nat k)) (map Num ?bytes)) = ?B"
      using cG by simp
    have gw: "groups w ?B = map (\<lambda>k. bitstring w (unit_nat k)) arr"
      using groups_concat[OF w0, of "map (\<lambda>k. bitstring w (unit_nat k)) arr"] by simp
    have keepw: "filter (\<lambda>g. \<not> (d' \<and> length g < w)) (groups w ?B) = groups w ?B"
      unfolding gw by (auto simp: filter_id_conv)
    have "map (unit_out w) (groups w ?B) = map (\<lambda>k. int (unit_nat k)) arr"
      unfolding gw using f w by (auto simp: unit_out_bitstring fits_unit_nat)
    then show ?thesis
      using convert_fits[OF w0 fb, of d'] B' keepw by simp
  qed
  show ?thesis using c1 m1 len inv by auto
qed

lemma pack_two_codes: "convertEncodingArrayUnitLength [Num 5, Num 3] 3 8 True = Some (Inr [])"
proof -
  have f: "\<forall>k \<in> set [Num 5, Num 3]. fits 3 k" by (simp add: fits_def)
  have b: "concat (map (\<lambda>k. bitstring 3 (unit_nat k)) [Num 5, Num 3]) = ''101011''"
    by (simp add: numeral_3_eq_3)
  have g: "groups 8 ''101011'' = [''101011'']"
    by (simp add: groups_step)
  show ?thesis
    using convert_fits[of 8 "[Num 5, Num 3]" 3 True, OF _ f] unfolding b g by simp
qed

text \<open>
  C7. The two three-bit codes 101 and 011 give six bits, fewer than eight, and with the
  discard flag the result is the empty array. Eight three-bit codes give 24 bits and so
  exactly three bytes, whatever the flag; regrouping these three bytes into three-bit
  units without the flag gives the eight codes back.
\<close>

theorem bit_packing_examples:
  "convertEncodingArrayUnitLength [Num 5, Num 3] 3 8 True = Some (Inr [])
   \<and> (\<forall>xs. length xs = 8 \<and> (\<forall>x \<in> set xs. 0 \<le> x \<and> x < 8) \<longrightarrow>
        (\<exists>bytes. convertEncodingArrayUnitLength (map Num xs) 3 8 discard = Some (Inr bytes)
                \<and> length bytes = 3
                \<and> convertEncodingArrayUnitLength (map Num bytes) 8 3 False = Some (Inr xs)))"
proof (intro conjI allI impI)
  show "convertEncodingArrayUnitLength [Num 5, Num 3] 3 8 True = Some (Inr [])" by (rule pack_two_codes)
next
  fix xs :: "int list"
  assume a: "length xs = 8 \<and> (\<forall>x \<in> set xs. 0 \<le> x \<and> x < 8)"
  then have f: "\<forall>k \<in> set (map Num xs). fits 3 k" by (auto simp: fits_def)
  have dv: "(8::nat) dvd 3 * length (map Num xs)" using a by simp
  have m: "map (\<lambda>k. int (unit_nat k)) (map Num xs) = xs"
    using a by (auto simp: comp_def map_idI)
  from regroup_inverse[of 3 8 "map Num xs" discard False, OF _ _ _ f dv]
  show "\<exists>bytes. convertEncodingArrayUnitLength (map Num xs) 3 8 discard = Some (Inr bytes)
                \<and> length bytes = 3
                \<and> convertEncodingArrayUnitLength (map Num bytes) 8 3 False = Some (Inr xs)"
    using a unfolding m by simp
qed

theorem bit_packing_examples_witness:
  "length [1, 2, 3, 4, 5, 6, 7, 0 :: int] = 8
   \<and> list_all (\<lambda>x. 0 \<le> x \<and> x < 8) [1, 2, 3, 4, 5, 6, 7, 0 :: int]
   \<and> (\<exists>bytes. convertEncodingArrayUnitLength (map Num [1, 2, 3, 4, 5, 6, 7, 0]) 3 8 True
                  = Some (Inr bytes)
              \<and> length bytes = 3
              \<and> convertEncodingArrayUnitLength (map Num bytes) 8 3 False
                  = Some (Inr [1, 2, 3, 4, 5, 6, 7, 0]))"
proof -
  have h: "length [1, 2, 3, 4, 5, 6, 7, 0 :: int] = 8
           \<and> (\<forall>x \<in> set [1, 2, 3, 4, 5, 6, 7, 0 :: int]. 0 \<le> x \<and> x < 8)"
    by simp
  from bit_packing_examples[of True] have
    "length [1, 2, 3, 4, 5, 6, 7, 0 :: int] = 8
       \<and> (\<forall>x \<in> set [1, 2, 3, 4, 5, 6, 7, 0 :: int]. 0 \<le> x \<and> x < 8) \<longrightarrow>
     (\<exists>bytes. convertEncodingArrayUnitLength (map Num [1, 2, 3, 4, 5, 6, 7, 0]) 3 8 True
                  = Some (Inr bytes)
              \<and> length bytes = 3
              \<and> convertEncodingArrayUnitLength (map Num bytes) 8 3 False
                  = Some (Inr [1, 2, 3, 4, 5, 6, 7, 0]))"
    by blast
  with h show ?thesis by (simp add: list_all_iff)
qed

subsection \<open>When the regrouping returns\<close>

lemma bin_loop_negative_aux:
  assumes "bin_loop ch binArr = Some r"
  shows "\<not> (ch < 0 \<and> - (2 ^ 31) \<le> ch)"
proof (rule bin_loop.raw_induct
    [where P = "\<lambda>ch binArr r. \<not> (ch < 0 \<and> - (2 ^ 31) \<le> ch)", OF _ assms])
  fix f :: "int \<Rightarrow> string list \<Rightarrow> string list option" and ch :: int and binArr r
  assume IH: "\<And>a b y. f a b = Some y \<Longrightarrow> \<not> (a < 0 \<and> - (2 ^ 31) \<le> a)"
    and eq: "(if ch = 0 then Some binArr
              else f (to_int32 ch div 2) (binArr @ [number_text (rem2 ch)])) = Some r"
  show "\<not> (ch < 0 \<and> - (2 ^ 31) \<le> ch)"
  proof
    assume a: "ch < 0 \<and> - (2 ^ 31) \<le> ch"
    then have t: "to_int32 ch = ch" by (intro to_int32_id) auto
    have "f (ch div 2) (binArr @ [number_text (rem2 ch)]) = Some r"
      using eq a t by (simp split: if_splits)
    then have "\<not> (ch div 2 < 0 \<and> - (2 ^ 31) \<le> ch div 2)" by (rule IH)
    moreover have "ch div 2 < 0" using a by simp
    moreover have "- (2 ^ 31) \<le> ch div 2" using a by linarith
    ultimately show False by simp
  qed
qed

lemma bin_loop_negative: "ch < 0 \<Longrightarrow> - (2 ^ 31) \<le> ch \<Longrightarrow> bin_loop ch binArr = None"
  using bin_loop_negative_aux[of ch binArr] by (cases "bin_loop ch binArr") auto

lemma bin_loop_2_31: "bin_loop 2147483648 [] = None"
proof -
  have "to_int32 2147483648 div 2 = - 1073741824" by (simp add: to_int32_def)
  then have "bin_loop 2147483648 [] = bin_loop (- 1073741824) ([] @ [number_text (rem2 2147483648)])"
    by (subst bin_loop.simps) simp
  then show ?thesis by (simp add: bin_loop_negative)
qed

text \<open>
  The claim C10 as it is written fails: \<open>2147483648\<close> is below \<open>2 ^ 32\<close>, so it fits
  a unit length of 32 bits, but \<open>ch >>= 1\<close> turns it into \<open>-1073741824\<close> and the
  inner loop then never reaches 0.
\<close>

theorem fitting_value_without_return:
  "(2147483648::int) < 2 ^ 32
   \<and> convertEncodingArrayUnitLength [Num 2147483648] 32 8 False = None"
  by (simp add: convertEncodingArrayUnitLength_def bin_loop_2_31)

lemma convert_256_RangeError:
  "convertEncodingArrayUnitLength [Num 256] 8 t d = Some (Inl RangeError)"
proof -
  have "binArr_of (Num 256) = Some (lsb_digits 256)"
    using bin_loop_nat[of 256 "[]"] by simp
  moreover have "8 < length (lsb_digits 256)" by (rule lsb_digits_long) simp
  ultimately show ?thesis
    by (simp add: convertEncodingArrayUnitLength_def unit_binary_def)
qed

text \<open>
  C10, amended. When the target unit length is at least 1 and every element of the input
  is a character or a number from 0 up to, not including, \<open>2 ^ originalUnitLength\<close>
  and \<open>2 ^ 31\<close>, the call returns an array, and for every element the inner loop ends
  with at most \<open>originalUnitLength\<close> digits, so that the count given to \<open>repeat\<close> is
  not negative. The index 256 with a unit length of 8 makes the call throw a RangeError.
\<close>

theorem convert_returns_when_fits:
  "(0 < t \<and> (\<forall>k \<in> set arr. fits w k) \<longrightarrow>
      (\<exists>out. convertEncodingArrayUnitLength arr w t d = Some (Inr out))
      \<and> (\<forall>k \<in> set arr. \<exists>binArr. binArr_of k = Some binArr \<and> length binArr \<le> w))
   \<and> convertEncodingArrayUnitLength [Num 256] 8 t' d' = Some (Inl RangeError)"
proof (intro conjI impI ballI)
  assume a: "0 < t \<and> (\<forall>k \<in> set arr. fits w k)"
  then show "\<exists>out. convertEncodingArrayUnitLength arr w t d = Some (Inr out)"
    using convert_fits[of t arr w d] by simp
next
  fix k
  assume a: "0 < t \<and> (\<forall>k \<in> set arr. fits w k)" and k: "k \<in> set arr"
  then have f: "fits w k" by simp
  then have "unit_nat k < 2 ^ w" by (rule fits_unit_nat)
  then have "length (lsb_digits (unit_nat k)) \<le> w" using lsb_digits_pad by blast
  then show "\<exists>binArr. binArr_of k = Some binArr \<and> length binArr \<le> w"
    using binArr_of_fits(1)[OF f] by simp
next
  show "convertEncodingArrayUnitLength [Num 256] 8 t' d' = Some (Inl RangeError)"
    by (rule convert_256_RangeError)
qed

theorem convert_returns_when_fits_witness:
  "0 < (8::nat) \<and> list_all (fits 9) [Chr CHR ''a'', Num 300]
   \<and> (\<exists>out. convertEncodingArrayUnitLength [Chr CHR ''a'', Num 300] 9 8 False = Some (Inr out))
   \<and> list_all (\<lambda>k. \<exists>binArr. binArr_of k = Some binArr \<and> length binArr \<le> 9)
         [Chr CHR ''a'', Num 300]"
proof -
  have h: "0 < (8::nat) \<and> (\<forall>k \<in> set [Chr CHR ''a'', Num 300]. fits 9 k)"
    by (simp add: fits_def)
  from convert_returns_when_fits[of 8 "[Chr CHR ''a'', Num 300]" 9 False] h
  have "(\<exists>out. convertEncodingArrayUnitLength [Chr CHR ''a'', Num 300] 9 8 False = Some (Inr out))
      \<and> (\<forall>k \<in> set [Chr CHR ''a'', Num 300]. \<exists>binArr. binArr_of k = Some binArr \<and> length binArr \<le> 9)"
    by blast
  with h show ?thesis unfolding list_all_iff by blast
qed

subsection \<open>Packing codes into bytes\<close>

lemma groups_nonempty: "0 < t \<Longrightarrow> xs \<noteq> [] \<Longrightarrow> groups t xs \<noteq> []"
  by (simp add: groups_step)

lemma groups_length_le: "0 < t \<Longrightarrow> g \<in> set (groups t xs) \<Longrightarrow> length g \<le> t"
proof (induction "length xs" arbitrary: xs rule: less_induct)
  case less
  show ?case
  proof (cases "xs = []")
    case True
    then show ?thesis using less.prems by simp
  next
    case False
    have gs: "groups t xs = take t xs # groups t (drop t xs)"
      using less.prems(1) False by (rule groups_step)
    have "g = take t xs \<or> g \<in> set (groups t (drop t xs))"
      using less.prems(2) unfolding gs by simp
    then show ?thesis
    proof
      assume "g = take t xs"
      then show ?thesis by simp
    next
      assume a: "g \<in> set (groups t (drop t xs))"
      have 1: "length (drop t xs) < length xs" using False less.prems(1) by simp
      show ?thesis by (rule less.hyps[OF 1 less.prems(1) a])
    qed
  qed
qed

lemma length_full_groups:
  "0 < t \<Longrightarrow> length (filter (\<lambda>g. length g = t) (groups t xs)) = length xs div t"
proof (induction "length xs" arbitrary: xs rule: less_induct)
  case less
  show ?case
  proof (cases "xs = []")
    case True
    then show ?thesis by simp
  next
    case False
    have gs: "groups t xs = take t xs # groups t (drop t xs)"
      using less.prems(1) False by (rule groups_step)
    have 1: "length (drop t xs) < length xs" using False less.prems(1) by simp
    have IH: "length (filter (\<lambda>g. length g = t) (groups t (drop t xs))) = length (drop t xs) div t"
      by (rule less.hyps[OF 1 less.prems(1)])
    show ?thesis
    proof (cases "t \<le> length xs")
      case True
      then have "length xs div t = Suc ((length xs - t) div t)"
        using less.prems(1) by (simp add: le_div_geq)
      then show ?thesis unfolding gs using IH True by simp
    next
      case short: False
      then show ?thesis unfolding gs by simp
    qed
  qed
qed

lemma length_last_group:
  "0 < t \<Longrightarrow> \<not> t dvd length xs \<Longrightarrow> length (last (groups t xs)) = length xs mod t"
proof (induction "length xs" arbitrary: xs rule: less_induct)
  case less
  have ne: "xs \<noteq> []" using less.prems(2) by auto
  have gs: "groups t xs = take t xs # groups t (drop t xs)"
    using less.prems(1) ne by (rule groups_step)
  show ?case
  proof (cases "length xs < t")
    case True
    then show ?thesis unfolding gs by simp
  next
    case False
    then have le: "t \<le> length xs" by simp
    have nd: "\<not> t dvd length (drop t xs)"
    proof
      assume "t dvd length (drop t xs)"
      then have "t dvd (length xs - t) + t" by simp
      then show False using less.prems(2) le by simp
    qed
    then have ne': "drop t xs \<noteq> []" by auto
    have 1: "length (drop t xs) < length xs" using ne less.prems(1) by simp
    have "length (last (groups t (drop t xs))) = length (drop t xs) mod t"
      by (rule less.hyps[OF 1 less.prems(1) nd])
    moreover have "(length xs - t) mod t = length xs mod t"
      using le by (simp add: le_mod_geq)
    ultimately show ?thesis
      unfolding gs using groups_nonempty[OF less.prems(1) ne'] by simp
  qed
qed

lemma unit_out_short:
  "t \<le> 31 \<Longrightarrow> length g \<le> t \<Longrightarrow>
   unit_out t g = int (bitval (g @ replicate (t - length g) CHR ''0''))"
  by (simp add: unit_out_bitval)

lemma getByteArray_fits:
  assumes "\<forall>k \<in> set arr. fits BITS_PER_ENCODING k"
  shows "getByteArrayFromEncodingArray arr =
           Some (Inr (map (\<lambda>g. int (bitval (g @ replicate (8 - length g) CHR ''0'')))
                          (groups 8 (binaryForm BITS_PER_ENCODING arr))))"
proof -
  have "map (unit_out 8) (groups 8 (binaryForm BITS_PER_ENCODING arr)) =
        map (\<lambda>g. int (bitval (g @ replicate (8 - length g) CHR ''0'')))
            (groups 8 (binaryForm BITS_PER_ENCODING arr))"
    by (rule map_cong[OF refl]) (simp add: unit_out_short groups_length_le)
  then show ?thesis
    using convert_fits[of 8 arr BITS_PER_ENCODING False] assms
    by (simp add: getByteArrayFromEncodingArray_def binaryForm_def)
qed

lemma length_binaryForm': "length (binaryForm w arr) = w * length arr"
  by (simp add: binaryForm_def length_binaryForm)

text \<open>
  The claim C2 as it is written fails: the nine bits of the single code \<open>'a'\<close> are
  packed into two bytes, the second one holding the ninth bit followed by seven zero
  bits. With the flag set the second byte would be missing.
\<close>

theorem pack_keeps_short_group:
  "getByteArrayFromEncodingArray [Chr CHR ''a''] = Some (Inr [48, 128])
   \<and> convertEncodingArrayUnitLength [Chr CHR ''a''] BITS_PER_ENCODING 8 True = Some (Inr [48])"
  unfolding getByteArrayFromEncodingArray_def BITS_PER_ENCODING_9 by code_simp

text \<open>
  C2, amended. \<open>getByteArrayFromEncodingArray\<close> calls the regrouping with the flag
  \<open>false\<close>. For an array of codes that fit \<open>BITS_PER_ENCODING\<close> bits, every group of
  eight bits of the bit string becomes one byte, and so does a final group of fewer than
  eight bits, read with zero bits added on its right. The number of bytes is the number
  of bits divided by 8 and rounded up, and when the number of bits is not a multiple of 8
  the last group has the remaining bits.
\<close>

theorem pack_pads_final_group:
  "(\<forall>k \<in> set encodingArray. fits BITS_PER_ENCODING k) \<longrightarrow>
     getByteArrayFromEncodingArray encodingArray =
       Some (Inr (map (\<lambda>g. int (bitval (g @ replicate (8 - length g) CHR ''0'')))
                      (groups 8 (binaryForm BITS_PER_ENCODING encodingArray))))
     \<and> length (groups 8 (binaryForm BITS_PER_ENCODING encodingArray))
         = (BITS_PER_ENCODING * length encodingArray + 7) div 8
     \<and> (\<not> 8 dvd BITS_PER_ENCODING * length encodingArray \<longrightarrow>
          length (last (groups 8 (binaryForm BITS_PER_ENCODING encodingArray)))
            = BITS_PER_ENCODING * length encodingArray mod 8)"
proof (intro impI conjI)
  assume "\<forall>k \<in> set encodingArray. fits BITS_PER_ENCODING k"
  then show "getByteArrayFromEncodingArray encodingArray =
       Some (Inr (map (\<lambda>g. int (bitval (g @ replicate (8 - length g) CHR ''0'')))
                      (groups 8 (binaryForm BITS_PER_ENCODING encodingArray))))"
    by (rule getByteArray_fits)
next
  show "length (groups 8 (binaryForm BITS_PER_ENCODING encodingArray))
         = (BITS_PER_ENCODING * length encodingArray + 7) div 8"
    using length_groups[of 8 "binaryForm BITS_PER_ENCODING encodingArray"]
    by (simp add: length_binaryForm')
next
  assume "\<not> 8 dvd BITS_PER_ENCODING * length encodingArray"
  then show "length (last (groups 8 (binaryForm BITS_PER_ENCODING encodingArray)))
            = BITS_PER_ENCODING * length encodingArray mod 8"
    using length_last_group[of 8 "binaryForm BITS_PER_ENCODING encodingArray"]
    by (simp add: length_binaryForm')
qed

theorem pack_pads_final_group_witness:
  "list_all (fits BITS_PER_ENCODING) [Chr CHR ''a'']
   \<and> \<not> 8 dvd BITS_PER_ENCODING * length [Chr CHR ''a'']
   \<and> getByteArrayFromEncodingArray [Chr CHR ''a''] =
       Some (Inr (map (\<lambda>g. int (bitval (g @ replicate (8 - length g) CHR ''0'')))
                      (groups 8 (binaryForm BITS_PER_ENCODING [Chr CHR ''a'']))))
   \<and> length (groups 8 (binaryForm BITS_PER_ENCODING [Chr CHR ''a''])) = 2
   \<and> length (last (groups 8 (binaryForm BITS_PER_ENCODING [Chr CHR ''a'']))) = 1"
proof -
  have h: "\<forall>k \<in> set [Chr CHR ''a'']. fits BITS_PER_ENCODING k"
    by (simp add: fits_def BITS_PER_ENCODING_9)
  have n: "\<not> 8 dvd BITS_PER_ENCODING * length [Chr CHR ''a'']"
    by (simp add: BITS_PER_ENCODING_9)
  from pack_pads_final_group[of "[Chr CHR ''a'']"] h n
  show ?thesis by (simp add: BITS_PER_ENCODING_9)
qed

subsection \<open>Unpacking bytes into codes\<close>

lemma filter_incomplete:
  "0 < t \<Longrightarrow> filter (\<lambda>g. \<not> (True \<and> length g < t)) (groups t xs) = filter (\<lambda>g. length g = t) (groups t xs)"
proof (rule filter_cong[OF refl])
  fix g
  assume t: "0 < t" and "g \<in> set (groups t xs)"
  then have "length g \<le> t" by (rule groups_length_le)
  then show "(\<not> (True \<and> length g < t)) = (length g = t)" by auto
qed

lemma getEncodingArray_fits:
  assumes "\<forall>k \<in> set byteArray. fits 8 k"
  shows "getEncodingArrayFromByteArray byteArray =
           Some (Inr (map (\<lambda>g. if int (bitval g) > 255 then Num (int (bitval g))
                                else Chr (char_of (int (bitval g))))
                          (filter (\<lambda>g. length g = BITS_PER_ENCODING)
                             (groups BITS_PER_ENCODING (binaryForm 8 byteArray)))))"
proof -
  let ?F = "filter (\<lambda>g. length g = BITS_PER_ENCODING) (groups BITS_PER_ENCODING (binaryForm 8 byteArray))"
  have p: "0 < BITS_PER_ENCODING" "BITS_PER_ENCODING \<le> 31" by (simp_all add: BITS_PER_ENCODING_9)
  have m: "map (unit_out BITS_PER_ENCODING) ?F = map (\<lambda>g. int (bitval g)) ?F"
    by (rule map_cong[OF refl]) (simp add: unit_out_full p)
  have "convertEncodingArrayUnitLength byteArray 8 BITS_PER_ENCODING True =
          Some (Inr (map (unit_out BITS_PER_ENCODING)
            (filter (\<lambda>g. \<not> (True \<and> length g < BITS_PER_ENCODING))
               (groups BITS_PER_ENCODING (binaryForm 8 byteArray)))))"
    unfolding binaryForm_def by (rule convert_fits[OF p(1) assms])
  then have c: "convertEncodingArrayUnitLength byteArray 8 BITS_PER_ENCODING True =
          Some (Inr (map (\<lambda>g. int (bitval g)) ?F))"
    by (simp only: filter_incomplete[OF p(1)] m)
  show ?thesis
    unfolding getEncodingArrayFromByteArray_def c by (simp add: comp_def)
qed

text \<open>
  The claim C3 as it is written fails: two bytes are sixteen bits, and unpacking them
  gives one code, made of the first nine bits. Without the flag the seven bits left over
  would give a second element.
\<close>

theorem unpack_drops_short_group:
  "getEncodingArrayFromByteArray [Num 48, Num 128] = Some (Inr [Chr CHR ''a''])
   \<and> convertEncodingArrayUnitLength [Num 48, Num 128] 8 BITS_PER_ENCODING False = Some (Inr [97, 0])"
  unfolding getEncodingArrayFromByteArray_def BITS_PER_ENCODING_9 by code_simp

text \<open>
  C3, amended. \<open>getEncodingArrayFromByteArray\<close> calls the regrouping with the flag
  \<open>true\<close>. For an array of bytes, the result has one element for every complete group
  of \<open>BITS_PER_ENCODING\<close> bits and none for a shorter final group: the number of
  elements is the number of bits divided by \<open>BITS_PER_ENCODING\<close> and rounded down. A
  group whose value is at most 255 becomes the one-character string of that code, which
  is the value that \<open>_buildDictionary\<close> stores under it; a larger value stays a number
  below \<open>DICT_SIZE\<close>.
\<close>

theorem unpack_discards_final_group:
  "(\<forall>k \<in> set byteArray. fits 8 k) \<longrightarrow>
     getEncodingArrayFromByteArray byteArray =
       Some (Inr (map (\<lambda>g. if int (bitval g) > 255 then Num (int (bitval g))
                            else Chr (char_of (int (bitval g))))
                      (filter (\<lambda>g. length g = BITS_PER_ENCODING)
                         (groups BITS_PER_ENCODING (binaryForm 8 byteArray)))))
     \<and> length (filter (\<lambda>g. length g = BITS_PER_ENCODING)
                 (groups BITS_PER_ENCODING (binaryForm 8 byteArray)))
         = 8 * length byteArray div BITS_PER_ENCODING
     \<and> (\<forall>r. getEncodingArrayFromByteArray byteArray = Some (Inr r) \<longrightarrow>
          (\<forall>e \<in> set r. (\<exists>c. e = Chr c \<and> fst (buildDictionary Chr) [c] = Some e)
                      \<or> (\<exists>v. e = Num v \<and> 255 < v \<and> v < DICT_SIZE)))"
proof (intro impI conjI allI ballI)
  assume "\<forall>k \<in> set byteArray. fits 8 k"
  then show "getEncodingArrayFromByteArray byteArray =
       Some (Inr (map (\<lambda>g. if int (bitval g) > 255 then Num (int (bitval g))
                            else Chr (char_of (int (bitval g))))
                      (filter (\<lambda>g. length g = BITS_PER_ENCODING)
                         (groups BITS_PER_ENCODING (binaryForm 8 byteArray)))))"
    by (rule getEncodingArray_fits)
next
  show "length (filter (\<lambda>g. length g = BITS_PER_ENCODING)
                 (groups BITS_PER_ENCODING (binaryForm 8 byteArray)))
         = 8 * length byteArray div BITS_PER_ENCODING"
    using length_full_groups[of BITS_PER_ENCODING "binaryForm 8 byteArray"]
    by (simp add: length_binaryForm' BITS_PER_ENCODING_9)
next
  fix r e
  assume f: "\<forall>k \<in> set byteArray. fits 8 k"
    and r: "getEncodingArrayFromByteArray byteArray = Some (Inr r)" and e: "e \<in> set r"
  from r e getEncodingArray_fits[OF f] obtain g
    where g: "length g = BITS_PER_ENCODING"
      and eg: "e = (if int (bitval g) > 255 then Num (int (bitval g)) else Chr (char_of (int (bitval g))))"
    by auto
  have "bitval g < 2 ^ 9" using bitval_less[of g] g by (simp add: BITS_PER_ENCODING_9)
  then have "int (bitval g) < DICT_SIZE" by (simp add: DICT_SIZE_def)
  then show "(\<exists>c. e = Chr c \<and> fst (buildDictionary Chr) [c] = Some e)
             \<or> (\<exists>v. e = Num v \<and> 255 < v \<and> v < DICT_SIZE)"
    using eg by (auto simp: dict_buildDictionary)
qed

theorem unpack_discards_final_group_witness:
  "list_all (fits 8) [Num 48, Num 128]
   \<and> getEncodingArrayFromByteArray [Num 48, Num 128] =
       Some (Inr (map (\<lambda>g. if int (bitval g) > 255 then Num (int (bitval g))
                            else Chr (char_of (int (bitval g))))
                      (filter (\<lambda>g. length g = BITS_PER_ENCODING)
                         (groups BITS_PER_ENCODING (binaryForm 8 [Num 48, Num 128])))))
   \<and> length (filter (\<lambda>g. length g = BITS_PER_ENCODING)
                 (groups BITS_PER_ENCODING (binaryForm 8 [Num 48, Num 128]))) = 1"
proof -
  have h: "\<forall>k \<in> set [Num 48, Num 128]. fits 8 k"
    by (simp add: fits_def)
  from unpack_discards_final_group[of "[Num 48, Num 128]"] h
  show ?thesis by (simp add: BITS_PER_ENCODING_9)
qed

subsection \<open>The size of the dictionary\<close>

lemma dom_buildDictionary: "dom (fst (buildDictionary str)) = range (\<lambda>c. [c])"
proof (rule set_eqI)
  fix k :: string
  show "k \<in> dom (fst (buildDictionary str)) \<longleftrightarrow> k \<in> range (\<lambda>c. [c])"
  proof (cases k)
    case Nil
    then show ?thesis by (auto simp: domIff dict_buildDictionary)
  next
    case (Cons c cs)
    then show ?thesis by (cases cs) (auto simp: domIff dict_buildDictionary)
  qed
qed

lemma card_single_char_names: "card (range (\<lambda>c::char. [c])) = 256"
proof -
  have "inj (\<lambda>c::char. [c])" by (simp add: inj_def)
  then show ?thesis by (simp add: card_image card_UNIV_char)
qed

lemma finite_single_char_names: "finite (range (\<lambda>c::char. [c]))"
  by simp

lemma cinv_init: "cinv compress_init"
  by (auto simp: cinv_def compress_init_def dictLen_buildDictionary DICT_SIZE_def
      dom_buildDictionary card_single_char_names dict_buildDictionary split: list.splits)

text \<open>A falsy read in lzwCompress means that the name is neither an own property nor inherited.\<close>

lemma falsy_read:
  assumes "\<forall>k v. d k = Some v \<longrightarrow> truthy v" and "\<not> truthy (dict_read d k)"
  shows "d k = None \<and> k \<notin> set Object_prototype_names"
  using assms by (auto simp: dict_read_def obj_get_def split: option.splits if_splits)

lemma proto_name: "''__proto__'' \<in> set Object_prototype_names"
  by (simp add: Object_prototype_names_def)

lemma cinv_emit:
  assumes i: "cinv st" and f: "\<not> truthy (dict_read (dict st) (s st @ [ch]))"
  shows "card (dom (dict (compress_emit st ch))) = nat (dictLen (compress_emit st ch))"
    and "dictLen (compress_emit st ch) = dictLen st + 1"
    and "\<forall>k v. dict (compress_emit st ch) k = Some v \<longrightarrow> truthy v"
proof -
  let ?k = "s st @ [ch]"
  have v: "\<forall>k v. dict st k = Some v \<longrightarrow> truthy v" using i by (simp add: cinv_def)
  from falsy_read[OF v f] have n: "dict st ?k = None" and p: "?k \<noteq> ''__proto__''"
    using proto_name by auto
  have "obj_set (dict st) ?k (Num (dictLen st)) = (dict st)(?k \<mapsto> Num (dictLen st))"
    unfolding obj_set_def using p by (simp only: if_False)
  then have d: "dict (compress_emit st ch) = (dict st)(?k \<mapsto> Num (dictLen st))"
    by (simp add: compress_emit_def)
  have fin: "finite (dom (dict st))"
    using i by (auto simp: cinv_def intro: card_ge_0_finite)
  have "card (dom (dict (compress_emit st ch))) = Suc (card (dom (dict st)))"
    unfolding d using n fin by (simp add: domIff)
  then show "card (dom (dict (compress_emit st ch))) = nat (dictLen (compress_emit st ch))"
    using i by (simp add: cinv_def compress_emit_def nat_add_distrib)
  show "dictLen (compress_emit st ch) = dictLen st + 1" by (simp add: compress_emit_def)
  show "\<forall>k v. dict (compress_emit st ch) k = Some v \<longrightarrow> truthy v"
    unfolding d using v i by (auto simp: cinv_def)
qed

lemma cinv_step: "cinv st \<Longrightarrow> cinv (compress_step st ch)"
proof (cases "truthy (dict_read (dict st) (s st @ [ch]))")
  case True
  assume "cinv st"
  then show ?thesis using True by (simp add: compress_step_def cinv_def)
next
  case False
  assume i: "cinv st"
  note e = cinv_emit[OF i False]
  show ?thesis
  proof (cases "DICT_SIZE \<le> dictLen (compress_emit st ch)")
    case True
    then show ?thesis using False
      by (auto simp: compress_step_def reset_if_full_def cinv_def dictLen_buildDictionary DICT_SIZE_def
          dom_buildDictionary card_single_char_names dict_buildDictionary split: list.splits)
  next
    case nf: False
    then show ?thesis using False e i
      by (simp add: compress_step_def reset_if_full_def cinv_def)
  qed
qed

lemma cinv_loop: "cinv st \<Longrightarrow> cinv (compress_loop st bytes)"
  unfolding compress_loop_def by (induction bytes arbitrary: st) (auto simp: cinv_step)

lemma digit_val_nth: "d < 10 \<Longrightarrow> digit_val (''0123456789'' ! d) = d"
proof -
  assume "d < 10"
  then have "d \<in> {0, 1, 2, 3, 4, 5, 6, 7, 8, 9}" by auto
  then show ?thesis by (auto simp: digit_val_def)
qed

lemma digit_nth_set: "d < 10 \<Longrightarrow> ''0123456789'' ! d \<in> set ''0123456789''"
  by (rule nth_mem) simp

lemma decimal_value:
  "foldl (\<lambda>v c. 10 * v + digit_val c) 0 (decimal n) = n"
proof (induction n rule: decimal.induct)
  case (1 n)
  show ?case
  proof (cases "n < 10")
    case True
    then show ?thesis by (subst decimal.simps) (simp add: digit_val_nth)
  next
    case False
    then show ?thesis using 1 by (subst decimal.simps) (simp add: digit_val_nth)
  qed
qed

lemma decimal_inj: "decimal m = decimal n \<Longrightarrow> m = n"
  by (metis decimal_value)

lemma decimal_digits: "set (decimal n) \<subseteq> set ''0123456789''"
proof (induction n rule: decimal.induct)
  case (1 n)
  show ?case
  proof (cases "n < 10")
    case True
    then show ?thesis using digit_nth_set[of n] by (subst decimal.simps) simp
  next
    case False
    then show ?thesis using 1 digit_nth_set[of "n mod 10"] by (subst decimal.simps) simp
  qed
qed

lemma decimal_nonempty: "decimal n \<noteq> []"
  by (subst decimal.simps) simp

lemma decimal_long: "10 \<le> n \<Longrightarrow> 2 \<le> length (decimal n)"
  using decimal_nonempty[of "n div 10"]
  by (subst decimal.simps) (cases "decimal (n div 10)"; simp)

lemma number_text_nat: "0 \<le> n \<Longrightarrow> number_text n = decimal (nat n)"
  by (simp add: number_text_def)

lemma number_text_inj: "0 \<le> m \<Longrightarrow> 0 \<le> n \<Longrightarrow> number_text m = number_text n \<Longrightarrow> m = n"
  using decimal_inj[of "nat m" "nat n"] by (simp add: number_text_nat)

lemma number_text_not_char: "10 \<le> n \<Longrightarrow> number_text n \<noteq> [c]"
proof -
  assume n: "10 \<le> n"
  then have "10 \<le> nat n" by simp
  then have "2 \<le> length (decimal (nat n))" by (rule decimal_long)
  then show ?thesis using n by (auto simp: number_text_nat)
qed

lemma number_text_not_proto: "0 \<le> n \<Longrightarrow> number_text n \<noteq> ''__proto__''"
proof
  assume "0 \<le> n" and e: "number_text n = ''__proto__''"
  then have "CHR ''_'' \<in> set (decimal (nat n))" by (simp add: number_text_nat)
  then show False using decimal_digits[of "nat n"] by auto
qed

text \<open>
  The property names that \<open>lzwDecompress\<close> reads are texts of array elements; none of
  them is the name of a property of \<open>Object.prototype\<close>.
\<close>

lemma code_text_not_inherited: "code_text c \<notin> set Object_prototype_names"
proof (cases c)
  case (Chr x)
  then show ?thesis by (simp add: Object_prototype_names_def)
next
  case (Num n)
  show ?thesis
  proof (cases "n < 0")
    case True
    then show ?thesis using Num by (simp add: number_text_def Object_prototype_names_def)
  next
    case False
    have "CHR ''o'' \<notin> set (decimal (nat n))" "CHR ''_'' \<notin> set (decimal (nat n))" 
       "CHR ''a'' \<notin> set (decimal (nat n))"
      using decimal_digits[of "nat n"] by auto
    then show ?thesis using Num False
      by (auto simp: number_text_def Object_prototype_names_def)
  qed
next
  case (Inherited name)
  then show ?thesis by (simp add: Object_prototype_names_def)
next
  case Undefined
  then show ?thesis by (simp add: Object_prototype_names_def)
qed

lemma dinv_card: "dinv st \<Longrightarrow> card (dom (dict st)) = nat (dictLen st)"
proof -
  assume i: "dinv st"
  let ?L = "number_text ` {256..<dictLen st}"
  have inj: "inj_on number_text {256..<dictLen st}"
  proof (rule inj_onI)
    fix x y
    assume "x \<in> {256..<dictLen st}" "y \<in> {256..<dictLen st}" "number_text x = number_text y"
    then show "x = y" by (intro number_text_inj) auto
  qed
  have c: "card ?L = nat (dictLen st - 256)" using inj by (simp add: card_image)
  have dj: "range (\<lambda>c::char. [c]) \<inter> ?L = {}"
  proof -
    have "number_text n \<noteq> [c]" if "n \<in> {256..<dictLen st}" for n c
      using that by (intro number_text_not_char) auto
    then show ?thesis by (auto simp: image_iff) metis
  qed
  have "card (range (\<lambda>c::char. [c]) \<union> ?L) = 256 + nat (dictLen st - 256)"
    using dj c by (simp add: card_Un_disjoint card_single_char_names)
  moreover have "256 + nat (dictLen st - 256) = nat (dictLen st)"
    using i unfolding dinv_def by linarith
  ultimately show ?thesis using i by (simp add: dinv_def)
qed

lemma dinv_init: "dinv (decompress_init cs)"
  by (auto simp: dinv_def decompress_init_def Let_def dictLen_buildDictionary DICT_SIZE_def
      dom_buildDictionary dict_buildDictionary split: list.splits)

lemma dinv_emit:
  assumes i: "dinv st"
  shows "dom (dict (decompress_emit st data)) =
           range (\<lambda>c. [c]) \<union> number_text ` {256..<dictLen st + 1}"
    and "dictLen (decompress_emit st data) = dictLen st + 1"
    and "\<forall>k v. dict (decompress_emit st data) k = Some v \<longrightarrow> v \<noteq> []"
proof -
  let ?v = "prev_text (prevcode st) @ (case data of [] \<Rightarrow> ''undefined'' | c # _ \<Rightarrow> [c])"
  have p: "number_text (dictLen st) \<noteq> ''__proto__''"
    using i by (intro number_text_not_proto) (simp add: dinv_def)
  have "obj_set (dict st) (number_text (dictLen st)) ?v = (dict st)(number_text (dictLen st) \<mapsto> ?v)"
    unfolding obj_set_def using p by (simp only: if_False)
  then have d: "dict (decompress_emit st data) = (dict st)(number_text (dictLen st) \<mapsto> ?v)"
    by (simp add: decompress_emit_def)
  have "{256..<dictLen st + 1} = insert (dictLen st) {256..<dictLen st}"
    using i by (auto simp: dinv_def)
  then show "dom (dict (decompress_emit st data)) =
           range (\<lambda>c. [c]) \<union> number_text ` {256..<dictLen st + 1}"
    unfolding d using i by (simp add: dinv_def)
  show "dictLen (decompress_emit st data) = dictLen st + 1" by (simp add: decompress_emit_def)
  have "?v \<noteq> []" by (cases data) auto
  then show "\<forall>k v. dict (decompress_emit st data) k = Some v \<longrightarrow> v \<noteq> []"
    unfolding d using i by (auto simp: dinv_def)
qed

lemma dinv_step: "dinv st \<Longrightarrow> decompress_step st c = Inr st' \<Longrightarrow> dinv st'"
proof -
  assume i: "dinv st" and s: "decompress_step st c = Inr st'"
  then obtain data where st': "st' = reset_if_full (\<lambda>c. [c]) (decompress_emit st data)"
    by (auto simp: decompress_step_def split: sum.splits)
  note e = dinv_emit[OF i, of data]
  show ?thesis
  proof (cases "DICT_SIZE \<le> dictLen (decompress_emit st data)")
    case True
    then show ?thesis unfolding st'
      by (auto simp: reset_if_full_def dinv_def dictLen_buildDictionary DICT_SIZE_def
          dom_buildDictionary dict_buildDictionary split: list.splits)
  next
    case False
    then show ?thesis unfolding st' using e i
      by (simp add: reset_if_full_def dinv_def)
  qed
qed

lemma dinv_loop: "dinv st \<Longrightarrow> decompress_loop st cs = Inr st' \<Longrightarrow> dinv st'"
  by (induction cs arbitrary: st) (auto split: sum.splits dest: dinv_step)

lemma card_emit_le:
  assumes "card (dom (dict st)) = nat (dictLen st)" and "dictLen st < DICT_SIZE"
  shows "card (dom (obj_set (dict st) k v)) \<le> nat DICT_SIZE"
proof (cases "finite (dom (dict st))")
  case True
  have "dom (obj_set (dict st) k v) \<subseteq> insert k (dom (dict st))"
    by (auto simp: obj_set_def)
  then have "card (dom (obj_set (dict st) k v)) \<le> card (insert k (dom (dict st)))"
    using True by (intro card_mono) auto
  also have "\<dots> \<le> Suc (card (dom (dict st)))" using True by (simp add: card_insert_if)
  finally show ?thesis using assms by (simp add: DICT_SIZE_def)
next
  case False
  then have "infinite (dom (obj_set (dict st) k v))"
    by (auto simp: obj_set_def)
  then show ?thesis by simp
qed

lemma reset_when_full:
  "DICT_SIZE \<le> dictLen st \<Longrightarrow>
   dict (reset_if_full str st) = fst (buildDictionary str) \<and> dictLen (reset_if_full str st) = 256"
  by (simp add: reset_if_full_def dictLen_buildDictionary)

text \<open>
  C5. After any input bytes, the dictionary of \<open>lzwCompress\<close> has \<open>dictLen\<close> own
  properties and \<open>dictLen\<close> is below \<open>DICT_SIZE\<close>; right after an insertion it has at
  most \<open>DICT_SIZE\<close> of them, and when the insertion makes \<open>dictLen\<close> reach
  \<open>DICT_SIZE\<close> the iteration ends with the initial dictionary and \<open>dictLen = 256\<close>.
  The same holds of \<open>lzwDecompress\<close> after any number of elements of any array.
\<close>

theorem dictionary_bounded:
  "card (dom (dict (compress_loop compress_init bytes)))
      = nat (dictLen (compress_loop compress_init bytes))
   \<and> dictLen (compress_loop compress_init bytes) < DICT_SIZE
   \<and> (\<not> truthy (dict_read (dict (compress_loop compress_init bytes))
                            (s (compress_loop compress_init bytes) @ [ch])) \<longrightarrow>
        card (dom (dict (compress_emit (compress_loop compress_init bytes) ch))) \<le> nat DICT_SIZE
        \<and> (DICT_SIZE \<le> dictLen (compress_emit (compress_loop compress_init bytes) ch) \<longrightarrow>
             dict (compress_step (compress_loop compress_init bytes) ch) = fst (buildDictionary Chr)
             \<and> dictLen (compress_step (compress_loop compress_init bytes) ch) = 256))
   \<and> (\<forall>st. decompress_loop (decompress_init cs) (take i (drop 1 cs)) = Inr st \<longrightarrow>
        card (dom (dict st)) = nat (dictLen st)
        \<and> dictLen st < DICT_SIZE
        \<and> (\<forall>data. resolve st c = Inr data \<longrightarrow>
             card (dom (dict (decompress_emit st data))) \<le> nat DICT_SIZE
             \<and> (DICT_SIZE \<le> dictLen (decompress_emit st data) \<longrightarrow>
                  (\<exists>st'. decompress_step st c = Inr st'
                        \<and> dict st' = fst (buildDictionary (\<lambda>c. [c])) \<and> dictLen st' = 256))))"
proof -
  let ?st = "compress_loop compress_init bytes"
  have ci: "cinv ?st" by (rule cinv_loop[OF cinv_init])
  then have c1: "card (dom (dict ?st)) = nat (dictLen ?st)" and c2: "dictLen ?st < DICT_SIZE"
    by (simp_all add: cinv_def)
  have c3: "card (dom (dict (compress_emit ?st ch))) \<le> nat DICT_SIZE"
    using card_emit_le[OF c1 c2] by (simp add: compress_emit_def)
  have c4: "dict (compress_step ?st ch) = fst (buildDictionary Chr)
            \<and> dictLen (compress_step ?st ch) = 256"
    if "\<not> truthy (dict_read (dict ?st) (s ?st @ [ch]))"
      and "DICT_SIZE \<le> dictLen (compress_emit ?st ch)"
    using that reset_when_full[of "compress_emit ?st ch" Chr] by (simp add: compress_step_def)
  have d: "card (dom (dict st)) = nat (dictLen st)
        \<and> dictLen st < DICT_SIZE
        \<and> (\<forall>data. resolve st c = Inr data \<longrightarrow>
             card (dom (dict (decompress_emit st data))) \<le> nat DICT_SIZE
             \<and> (DICT_SIZE \<le> dictLen (decompress_emit st data) \<longrightarrow>
                  (\<exists>st'. decompress_step st c = Inr st'
                        \<and> dict st' = fst (buildDictionary (\<lambda>c. [c])) \<and> dictLen st' = 256)))"
    if r: "decompress_loop (decompress_init cs) (take i (drop 1 cs)) = Inr st" for st
  proof -
    have di: "dinv st" by (rule dinv_loop[OF dinv_init r])
    then have d1: "card (dom (dict st)) = nat (dictLen st)" and d2: "dictLen st < DICT_SIZE"
      by (simp_all add: dinv_card) (simp add: dinv_def)
    have d3: "card (dom (dict (decompress_emit st data))) \<le> nat DICT_SIZE" for data
      using card_emit_le[OF d1 d2] by (simp add: decompress_emit_def)
    have d4: "\<exists>st'. decompress_step st c = Inr st'
                \<and> dict st' = fst (buildDictionary (\<lambda>c. [c])) \<and> dictLen st' = 256"
      if "resolve st c = Inr data" and "DICT_SIZE \<le> dictLen (decompress_emit st data)" for data
      using that reset_when_full[of "decompress_emit st data" "\<lambda>c. [c]"]
      by (simp add: decompress_step_def)
    show ?thesis using d1 d2 d3 d4 by blast
  qed
  show ?thesis using c1 c2 c3 c4 d by blast
qed

lemma char_of_inj_256: "i < 256 \<Longrightarrow> j < 256 \<Longrightarrow> char_of (i::nat) = char_of j \<Longrightarrow> i = j"
  by (metis mod_less of_char_of)

lemma distinct_bytes_state:
  "0 < n \<Longrightarrow> n \<le> 256 \<Longrightarrow>
   cinv (compress_loop compress_init (map char_of [0..<n]))
   \<and> dictLen (compress_loop compress_init (map char_of [0..<n])) = 255 + int n
   \<and> s (compress_loop compress_init (map char_of [0..<n])) = [char_of (n - 1)]
   \<and> dom (dict (compress_loop compress_init (map char_of [0..<n])))
        \<subseteq> range (\<lambda>c. [c]) \<union> (\<lambda>i. [char_of i, char_of (Suc i)]) ` {i. Suc i < n}"
proof (induction n)
  case 0
  then show ?case by simp
next
  case (Suc n)
  show ?case
  proof (cases "n = 0")
    case True
    have "compress_loop compress_init (map char_of [0..<Suc 0]) = compress_init\<lparr>s := [char_of (0::nat)]\<rparr>"
      by (simp add: compress_loop_def compress_step_def compress_init_def dict_read_def obj_get_def
          dict_buildDictionary)
    then show ?thesis using True cinv_init
      by (simp add: cinv_def compress_init_def dictLen_buildDictionary dom_buildDictionary)
  next
    case False
    let ?st = "compress_loop compress_init (map char_of [0..<n])"
    let ?ch = "char_of n :: char"
    let ?k = "[char_of (n - 1), ?ch]"
    have n: "0 < n" "n < 256" using False Suc.prems by auto
    from Suc.IH[OF n(1)] n have IH: "cinv ?st" "dictLen ?st = 255 + int n" "s ?st = [char_of (n - 1)]"
      "dom (dict ?st) \<subseteq> range (\<lambda>c. [c]) \<union> (\<lambda>i. [char_of i, char_of (Suc i)]) ` {i. Suc i < n}"
      by auto
    have step: "compress_loop compress_init (map char_of [0..<Suc n]) = compress_step ?st ?ch"
      by (simp add: compress_loop_def)
    have notin: "?k \<notin> dom (dict ?st)"
    proof
      assume "?k \<in> dom (dict ?st)"
      then have "?k \<in> (\<lambda>i. [char_of i, char_of (Suc i)]) ` {i. Suc i < n}" using IH(4) by auto
      then obtain i where i: "Suc i < n" "char_of (n - 1) = (char_of i :: char)" by auto
      then have "n - 1 = i" using n by (intro char_of_inj_256) auto
      then show False using i by simp
    qed
    have np: "?k \<notin> set Object_prototype_names" by (simp add: Object_prototype_names_def)
    have falsy: "\<not> truthy (dict_read (dict ?st) (s ?st @ [?ch]))"
      using notin np IH(3) by (simp add: dict_read_def obj_get_def domIff)
    have nofull: "\<not> DICT_SIZE \<le> dictLen (compress_emit ?st ?ch)"
      using IH(2) n by (simp add: compress_emit_def DICT_SIZE_def)
    have eq: "compress_step ?st ?ch = compress_emit ?st ?ch"
      using falsy nofull by (simp add: compress_step_def reset_if_full_def)
    have "dom (dict (compress_emit ?st ?ch)) \<subseteq> insert ?k (dom (dict ?st))"
      using IH(3) by (auto simp: compress_emit_def obj_set_def)
    moreover have "?k \<in> (\<lambda>i. [char_of i, char_of (Suc i)]) ` {i. Suc i < Suc n}"
      using n by (auto simp: image_iff intro!: exI[of _ "n - 1"])
    moreover have "{i. Suc i < n} \<subseteq> {i. Suc i < Suc n}" by auto
    ultimately have dom: "dom (dict (compress_emit ?st ?ch))
        \<subseteq> range (\<lambda>c. [c]) \<union> (\<lambda>i. [char_of i, char_of (Suc i)]) ` {i. Suc i < Suc n}"
      using IH(4) by blast
    have "cinv (compress_step ?st ?ch)" by (rule cinv_step[OF IH(1)])
    then show ?thesis unfolding step using dom IH(2) unfolding eq
      by (simp add: compress_emit_def)
  qed
qed

lemma chr_run_state:
  "dinv st \<Longrightarrow> dictLen st + int n < DICT_SIZE \<Longrightarrow>
   \<exists>st'. decompress_loop st (replicate n (Chr x)) = Inr st' \<and> dictLen st' = dictLen st + int n"
proof (induction n arbitrary: st)
  case 0
  then show ?case by simp
next
  case (Suc n)
  have "[x] \<in> dom (dict st)" using Suc.prems(1) by (simp add: dinv_def)
  then obtain v where v: "dict st [x] = Some v" by auto
  then have "v \<noteq> []" using Suc.prems(1) by (simp add: dinv_def)
  then obtain y ys where "v = y # ys" by (cases v) auto
  then have r: "resolve st (Chr x) = Inr v" using v by (simp add: resolve_def)
  have nf: "\<not> DICT_SIZE \<le> dictLen (decompress_emit st v)"
    using Suc.prems(2) by (simp add: decompress_emit_def)
  have s1: "decompress_step st (Chr x) = Inr (decompress_emit st v)"
    using r nf by (simp add: decompress_step_def reset_if_full_def)
  have i1: "dinv (decompress_emit st v)" by (rule dinv_step[OF Suc.prems(1) s1])
  have l1: "dictLen (decompress_emit st v) + int n < DICT_SIZE"
    using Suc.prems(2) by (simp add: decompress_emit_def)
  from Suc.IH[OF i1 l1] show ?case using s1 by (auto simp: decompress_emit_def)
qed

lemma dictLen_decompress_init: "dictLen (decompress_init cs) = 256"
  by (simp add: decompress_init_def Let_def dictLen_buildDictionary)

theorem dictionary_bounded_witness:
  "\<not> truthy (dict_read (dict (compress_loop compress_init (map char_of [0..<256::nat])))
                 (s (compress_loop compress_init (map char_of [0..<256::nat])) @ [char_of (0::nat)]))
   \<and> DICT_SIZE \<le> dictLen (compress_emit (compress_loop compress_init (map char_of [0..<256::nat]))
                               (char_of (0::nat)))
   \<and> card (dom (dict (compress_loop compress_init (map char_of [0..<256::nat])))) = 511
   \<and> card (dom (dict (compress_emit (compress_loop compress_init (map char_of [0..<256::nat]))
                               (char_of (0::nat))))) \<le> nat DICT_SIZE
   \<and> dict (compress_step (compress_loop compress_init (map char_of [0..<256::nat])) (char_of (0::nat)))
       = fst (buildDictionary Chr)
   \<and> dictLen (compress_step (compress_loop compress_init (map char_of [0..<256::nat])) (char_of (0::nat)))
       = 256
   \<and> (\<exists>st data. decompress_loop (decompress_init (replicate 257 (Chr CHR ''a'')))
                   (take 255 (drop 1 (replicate 257 (Chr CHR ''a'')))) = Inr st
          \<and> resolve st (Chr CHR ''a'') = Inr data
          \<and> DICT_SIZE \<le> dictLen (decompress_emit st data)
          \<and> card (dom (dict st)) = 511
          \<and> card (dom (dict (decompress_emit st data))) \<le> nat DICT_SIZE
          \<and> (\<exists>st'. decompress_step st (Chr CHR ''a'') = Inr st'
                 \<and> dict st' = fst (buildDictionary (\<lambda>c. [c])) \<and> dictLen st' = 256))"
proof -
  let ?bytes = "map char_of [0..<256::nat]"
  let ?ch = "char_of (0::nat) :: char"
  let ?st = "compress_loop compress_init ?bytes"
  let ?cs = "replicate 257 (Chr CHR ''a'')"
  note t = dictionary_bounded[of ?bytes ?ch ?cs 255 "Chr CHR ''a''"]
  from distinct_bytes_state[of 256] have st: "cinv ?st" "dictLen ?st = 511" "s ?st = [char_of (255::nat)]"
      "dom (dict ?st) \<subseteq> range (\<lambda>c. [c]) \<union> (\<lambda>i. [char_of i, char_of (Suc i)]) ` {i. Suc i < 256}"
    by auto
  have "[char_of (255::nat), ?ch] \<notin> dom (dict ?st)"
  proof
    assume "[char_of (255::nat), ?ch] \<in> dom (dict ?st)"
    then have "[char_of (255::nat), ?ch] \<in> (\<lambda>i. [char_of i, char_of (Suc i)]) ` {i. Suc i < 256}"
      using st(4) by auto
    then obtain i where i: "Suc i < 256" "char_of (255::nat) = (char_of i :: char)" by auto
    then have "255 = i" by (intro char_of_inj_256) auto
    then show False using i by simp
  qed
  moreover have "[char_of (255::nat), ?ch] \<notin> set Object_prototype_names"
    by (simp add: Object_prototype_names_def)
  ultimately have h1: "\<not> truthy (dict_read (dict ?st) (s ?st @ [?ch]))"
    using st(3) by (simp add: dict_read_def obj_get_def domIff)
  have h2: "DICT_SIZE \<le> dictLen (compress_emit ?st ?ch)"
    using st(2) by (simp add: compress_emit_def DICT_SIZE_def)
  have c: "card (dom (dict ?st)) = 511
     \<and> card (dom (dict (compress_emit ?st ?ch))) \<le> nat DICT_SIZE
     \<and> dict (compress_step ?st ?ch) = fst (buildDictionary Chr)
     \<and> dictLen (compress_step ?st ?ch) = 256"
    using t h1 h2 st(2) by simp
  have "dictLen (decompress_init ?cs) + int 255 < DICT_SIZE"
    by (simp add: dictLen_decompress_init DICT_SIZE_def)
  from chr_run_state[OF dinv_init this, of "CHR ''a''"] obtain st
    where r: "decompress_loop (decompress_init ?cs) (replicate 255 (Chr CHR ''a'')) = Inr st"
      and l: "dictLen st = 511"
    by (auto simp: dictLen_decompress_init)
  have tk: "take 255 (drop 1 ?cs) = replicate 255 (Chr CHR ''a'')" by simp
  have di: "dinv st" by (rule dinv_loop[OF dinv_init r])
  then have "[CHR ''a''] \<in> dom (dict st)" by (simp add: dinv_def)
  then obtain v where v: "dict st [CHR ''a''] = Some v" by auto
  then have "v \<noteq> []" using di by (simp add: dinv_def)
  then obtain y ys where "v = y # ys" by (cases v) auto
  then have rs: "resolve st (Chr CHR ''a'') = Inr v" using v by (simp add: resolve_def)
  have h3: "DICT_SIZE \<le> dictLen (decompress_emit st v)"
    using l by (simp add: decompress_emit_def DICT_SIZE_def)
  have d: "card (dom (dict st)) = 511
          \<and> card (dom (dict (decompress_emit st v))) \<le> nat DICT_SIZE
          \<and> (\<exists>st'. decompress_step st (Chr CHR ''a'') = Inr st'
                 \<and> dict st' = fst (buildDictionary (\<lambda>c. [c])) \<and> dictLen st' = 256)"
    using t r rs h3 l unfolding tk by simp
  show ?thesis using h1 h2 c r rs h3 d unfolding tk by blast
qed

subsection \<open>The decoding error\<close>

lemma prev_index0_not_bad: "prev_index0 p \<noteq> Inl BadlyCompressed"
  by (induction p rule: prev_index0.induct) auto

lemma resolve_bad_iff:
  assumes i: "dinv st"
  shows "resolve st c = Inl BadlyCompressed \<longleftrightarrow>
           code_text c \<notin> dom (dict st) \<and> c \<noteq> Num (dictLen st)"
proof (cases "dict st (code_text c)")
  case None
  have chr: "\<And>x. c \<noteq> Chr x"
  proof
    fix x assume "c = Chr x"
    then have "code_text c \<in> dom (dict st)" using i by (simp add: dinv_def)
    then show False using None by (simp add: domIff)
  qed
  have "loose_eq c (dictLen st) \<longleftrightarrow> c = Num (dictLen st)"
    using chr by (cases c) auto
  then show ?thesis using None prev_index0_not_bad[of "prevcode st"]
    by (auto simp: resolve_def domIff split: sum.splits)
next
  case (Some v)
  then have "v \<noteq> []" using i by (simp add: dinv_def)
  then obtain x xs where "v = x # xs" by (cases v) auto
  then show ?thesis using Some by (simp add: resolve_def domIff)
qed

lemma step_bad_iff: "decompress_step st c = Inl BadlyCompressed \<longleftrightarrow> resolve st c = Inl BadlyCompressed"
  by (simp add: decompress_step_def split: sum.splits)

lemma loop_bad_iff:
  "decompress_loop st cs = Inl BadlyCompressed \<longleftrightarrow>
     (\<exists>j st'. j < length cs \<and> decompress_loop st (take j cs) = Inr st'
              \<and> decompress_step st' (cs ! j) = Inl BadlyCompressed)"
proof (induction cs arbitrary: st)
  case Nil
  then show ?case by simp
next
  case (Cons c cs)
  show ?case
  proof (cases "decompress_step st c")
    case (Inl e)
    have "(\<exists>j st'. j < length (c # cs) \<and> decompress_loop st (take j (c # cs)) = Inr st'
              \<and> decompress_step st' ((c # cs) ! j) = Inl BadlyCompressed) \<longleftrightarrow> e = BadlyCompressed"
    proof
      assume "\<exists>j st'. j < length (c # cs) \<and> decompress_loop st (take j (c # cs)) = Inr st'
              \<and> decompress_step st' ((c # cs) ! j) = Inl BadlyCompressed"
      then obtain j st' where j: "decompress_loop st (take j (c # cs)) = Inr st'"
        "decompress_step st' ((c # cs) ! j) = Inl BadlyCompressed" by blast
      show "e = BadlyCompressed"
      proof (cases j)
        case 0
        then show ?thesis using j Inl by simp
      next
        case (Suc k)
        then show ?thesis using j Inl by simp
      qed
    next
      assume "e = BadlyCompressed"
      then have "0 < length (c # cs) \<and> decompress_loop st (take 0 (c # cs)) = Inr st
              \<and> decompress_step st ((c # cs) ! 0) = Inl BadlyCompressed"
        using Inl by simp
      then show "\<exists>j st'. j < length (c # cs) \<and> decompress_loop st (take j (c # cs)) = Inr st'
              \<and> decompress_step st' ((c # cs) ! j) = Inl BadlyCompressed" by blast
    qed
    then show ?thesis using Inl by simp
  next
    case (Inr st1)
    have "(\<exists>j st'. j < length (c # cs) \<and> decompress_loop st (take j (c # cs)) = Inr st'
              \<and> decompress_step st' ((c # cs) ! j) = Inl BadlyCompressed)
       \<longleftrightarrow> (\<exists>j st'. j < length cs \<and> decompress_loop st1 (take j cs) = Inr st'
              \<and> decompress_step st' (cs ! j) = Inl BadlyCompressed)"
    proof
      assume "\<exists>j st'. j < length (c # cs) \<and> decompress_loop st (take j (c # cs)) = Inr st'
              \<and> decompress_step st' ((c # cs) ! j) = Inl BadlyCompressed"
      then obtain j st' where j: "j < length (c # cs)" "decompress_loop st (take j (c # cs)) = Inr st'"
        "decompress_step st' ((c # cs) ! j) = Inl BadlyCompressed" by blast
      show "\<exists>j st'. j < length cs \<and> decompress_loop st1 (take j cs) = Inr st'
              \<and> decompress_step st' (cs ! j) = Inl BadlyCompressed"
      proof (cases j)
        case 0
        then show ?thesis using j Inr by simp
      next
        case (Suc k)
        then have "k < length cs \<and> decompress_loop st1 (take k cs) = Inr st'
              \<and> decompress_step st' (cs ! k) = Inl BadlyCompressed"
          using j Inr by simp
        then show ?thesis by blast
      qed
    next
      assume "\<exists>j st'. j < length cs \<and> decompress_loop st1 (take j cs) = Inr st'
              \<and> decompress_step st' (cs ! j) = Inl BadlyCompressed"
      then obtain k st' where "k < length cs" "decompress_loop st1 (take k cs) = Inr st'"
        "decompress_step st' (cs ! k) = Inl BadlyCompressed" by blast
      then have "Suc k < length (c # cs) \<and> decompress_loop st (take (Suc k) (c # cs)) = Inr st'
              \<and> decompress_step st' ((c # cs) ! Suc k) = Inl BadlyCompressed"
        using Inr by simp
      then show "\<exists>j st'. j < length (c # cs) \<and> decompress_loop st (take j (c # cs)) = Inr st'
              \<and> decompress_step st' ((c # cs) ! j) = Inl BadlyCompressed" by blast
    qed
    then show ?thesis using Inr Cons.IH[of st1] by simp
  qed
qed

lemma lzwDecompress_bad: 
  "lzwDecompress cs = Inl BadlyCompressed \<longleftrightarrow>
     decompress_loop (decompress_init cs) (drop 1 cs) = Inl BadlyCompressed"
  by (simp add: lzwDecompress_def split: sum.splits)

lemma decode_error_iff_aux:
  "lzwDecompress cs = Inl BadlyCompressed \<longleftrightarrow>
     (\<exists>i st. 0 < i \<and> i < length cs
            \<and> decompress_loop (decompress_init cs) (take (i - 1) (drop 1 cs)) = Inr st
            \<and> code_text (cs ! i) \<notin> dom (dict st) \<and> cs ! i \<noteq> Num (dictLen st))"
  (is "?L \<longleftrightarrow> ?R")
proof
  assume ?L
  then obtain j st where j: "j < length (drop 1 cs)"
      "decompress_loop (decompress_init cs) (take j (drop 1 cs)) = Inr st"
      "decompress_step st (drop 1 cs ! j) = Inl BadlyCompressed"
    unfolding lzwDecompress_bad loop_bad_iff by blast
  have i: "dinv st" using dinv_loop[OF dinv_init j(2)] .
  have n: "drop 1 cs ! j = cs ! Suc j" using j(1) by simp
  have "0 < Suc j \<and> Suc j < length cs
        \<and> decompress_loop (decompress_init cs) (take (Suc j - 1) (drop 1 cs)) = Inr st
        \<and> code_text (cs ! Suc j) \<notin> dom (dict st) \<and> cs ! Suc j \<noteq> Num (dictLen st)"
    using j resolve_bad_iff[OF i] unfolding step_bad_iff n by auto
  then show ?R by blast
next
  assume ?R
  then obtain i st where a: "0 < i" "i < length cs"
      "decompress_loop (decompress_init cs) (take (i - 1) (drop 1 cs)) = Inr st"
      "code_text (cs ! i) \<notin> dom (dict st)" "cs ! i \<noteq> Num (dictLen st)" by blast
  have i: "dinv st" using dinv_loop[OF dinv_init a(3)] .
  have n: "drop 1 cs ! (i - 1) = cs ! i" using a(1,2) by simp
  have "i - 1 < length (drop 1 cs) \<and> decompress_loop (decompress_init cs) (take (i - 1) (drop 1 cs)) = Inr st
        \<and> decompress_step st (drop 1 cs ! (i - 1)) = Inl BadlyCompressed"
    using a resolve_bad_iff[OF i] unfolding step_bad_iff n by auto
  then show ?L unfolding lzwDecompress_bad loop_bad_iff by blast
qed

lemma decompress_init_prefix:
  "0 < i \<Longrightarrow> i < length cs \<Longrightarrow> decompress_init (take (Suc i) cs @ rest) = decompress_init cs"
  by (cases cs) (auto simp: decompress_init_def)

text \<open>
  C4. \<open>lzwDecompress\<close> throws "badly compressed" exactly when some element after the
  first, read in the state that the elements before it lead to, has a text that is not a
  property name of the dictionary and is not the number \<open>dictLen\<close>. The result is then
  the error alone, and it stays the error whatever elements follow the offending one.
\<close>

theorem decode_error_iff:
  "(lzwDecompress cs = Inl BadlyCompressed \<longleftrightarrow>
     (\<exists>i st. 0 < i \<and> i < length cs
            \<and> decompress_loop (decompress_init cs) (take (i - 1) (drop 1 cs)) = Inr st
            \<and> code_text (cs ! i) \<notin> dom (dict st) \<and> cs ! i \<noteq> Num (dictLen st)))
   \<and> (\<forall>i st rest. 0 < i \<and> i < length cs
            \<and> decompress_loop (decompress_init cs) (take (i - 1) (drop 1 cs)) = Inr st
            \<and> code_text (cs ! i) \<notin> dom (dict st) \<and> cs ! i \<noteq> Num (dictLen st)
         \<longrightarrow> lzwDecompress (take (Suc i) cs @ rest) = Inl BadlyCompressed)"
proof (intro conjI allI impI)
  show "lzwDecompress cs = Inl BadlyCompressed \<longleftrightarrow>
     (\<exists>i st. 0 < i \<and> i < length cs
            \<and> decompress_loop (decompress_init cs) (take (i - 1) (drop 1 cs)) = Inr st
            \<and> code_text (cs ! i) \<notin> dom (dict st) \<and> cs ! i \<noteq> Num (dictLen st))"
    by (rule decode_error_iff_aux)
next
  fix i st rest
  assume a: "0 < i \<and> i < length cs
            \<and> decompress_loop (decompress_init cs) (take (i - 1) (drop 1 cs)) = Inr st
            \<and> code_text (cs ! i) \<notin> dom (dict st) \<and> cs ! i \<noteq> Num (dictLen st)"
  let ?cs' = "take (Suc i) cs @ rest"
  have 1: "i < length ?cs'" using a by simp
  have 2: "take (i - 1) (drop 1 ?cs') = take (i - 1) (drop 1 cs)"
  proof -
    have "drop 1 ?cs' = take i (drop 1 cs) @ rest"
      using a by (simp add: drop_take)
    moreover have "length (take i (drop 1 cs)) = i" using a by (auto simp: min_def)
    ultimately show ?thesis by (simp add: min_def)
  qed
  have 3: "?cs' ! i = cs ! i" using a by (simp add: nth_append)
  have "0 < i \<and> i < length ?cs'
            \<and> decompress_loop (decompress_init ?cs') (take (i - 1) (drop 1 ?cs')) = Inr st
            \<and> code_text (?cs' ! i) \<notin> dom (dict st) \<and> ?cs' ! i \<noteq> Num (dictLen st)"
    using a 1 unfolding 2 3 by (simp add: decompress_init_prefix)
  then show "lzwDecompress ?cs' = Inl BadlyCompressed"
    unfolding decode_error_iff_aux[of ?cs'] by blast
qed

theorem decode_error_iff_witness:
  "lzwDecompress [Chr CHR ''a'', Num 300] = Inl BadlyCompressed
   \<and> (\<exists>i st. 0 < i \<and> i < length [Chr CHR ''a'', Num 300]
          \<and> decompress_loop (decompress_init [Chr CHR ''a'', Num 300])
               (take (i - 1) (drop 1 [Chr CHR ''a'', Num 300])) = Inr st
          \<and> code_text ([Chr CHR ''a'', Num 300] ! i) \<notin> dom (dict st)
          \<and> [Chr CHR ''a'', Num 300] ! i \<noteq> Num (dictLen st)
          \<and> lzwDecompress (take (Suc i) [Chr CHR ''a'', Num 300] @ [Chr CHR ''b''])
              = Inl BadlyCompressed)"
proof -
  let ?cs = "[Chr CHR ''a'', Num 300]"
  note t = decode_error_iff[of ?cs]
  have l: "lzwDecompress ?cs = Inl BadlyCompressed"
    by (simp add: decompress_eval)
  with t obtain i st where a: "0 < i \<and> i < length ?cs
          \<and> decompress_loop (decompress_init ?cs) (take (i - 1) (drop 1 ?cs)) = Inr st
          \<and> code_text (?cs ! i) \<notin> dom (dict st) \<and> ?cs ! i \<noteq> Num (dictLen st)"
    by blast
  with t have "lzwDecompress (take (Suc i) ?cs @ [Chr CHR ''b'']) = Inl BadlyCompressed"
    by blast
  with l a show ?thesis by blast
qed

subsection \<open>A property name of Object.prototype in the input\<close>

text \<open>
  The dictionary of \<open>lzwCompress\<close> is a plain object, and \<open>if(dict[s + ch])\<close> is also
  true when \<open>s + ch\<close> is the name of a property of \<open>Object.prototype\<close>. The text
  below teaches the dictionary the phrases \<open>va\<close>, \<open>val\<close>, \<open>valu\<close>, \<open>value\<close>,
  \<open>valueO\<close> and then reads \<open>valueOf\<close>: the last element pushed is the built-in
  function, not a code.
\<close>

lemma compress_inherited_name:
  "fst (lzwCompress ''vavalvaluvaluevalueOvalueOf'') =
     [Chr CHR ''v'', Chr CHR ''a'', Num 256, Chr CHR ''l'', Num 258, Chr CHR ''u'', Num 260,
      Chr CHR ''e'', Num 262, Chr CHR ''O'', Inherited ''valueOf'']"
  by (simp add: compress_eval)

text \<open>
  C1 on this program. The text has 27 bytes, that is 216 bits, a multiple of
  \<open>BITS_PER_ENCODING\<close>. The built-in function is packed as eight zeros followed by
  the three characters \<open>NaN\<close>, which read as zero bits; unpacking gives the code of the
  character 0 in its place, and the round trip returns 21 bytes, not the 27 of the input.
\<close>

theorem roundtrip_inherited_name:
  "(length ''vavalvaluvaluevalueOvalueOf'' * 8) mod BITS_PER_ENCODING = 0
   \<and> fst (lzwCompress ''vavalvaluvaluevalueOvalueOf'') =
       [Chr CHR ''v'', Chr CHR ''a'', Num 256, Chr CHR ''l'', Num 258, Chr CHR ''u'', Num 260,
        Chr CHR ''e'', Num 262, Chr CHR ''O'', Inherited ''valueOf'']
   \<and> roundtrip ''vavalvaluvaluevalueOvalueOf'' = Some (Inr (''vavalvaluvaluevalueO'' @ [CHR 0x00]))"
proof -
  have p: "getByteArrayFromEncodingArray
       [Chr CHR ''v'', Chr CHR ''a'', Num 256, Chr CHR ''l'', Num 258, Chr CHR ''u'', Num 260,
        Chr CHR ''e'', Num 262, Chr CHR ''O'', Inherited ''valueOf'']
     = Some (Inr [59, 24, 96, 6, 200, 17, 214, 8, 101, 131, 19, 192, 0])"
    unfolding getByteArrayFromEncodingArray_def BITS_PER_ENCODING_9 by code_simp
  have u: "getEncodingArrayFromByteArray
       (map Num [59, 24, 96, 6, 200, 17, 214, 8, 101, 131, 19, 192, 0])
     = Some (Inr [Chr CHR ''v'', Chr CHR ''a'', Num 256, Chr CHR ''l'', Num 258, Chr CHR ''u'',
                  Num 260, Chr CHR ''e'', Num 262, Chr CHR ''O'', Chr (CHR 0x00)])"
    unfolding getEncodingArrayFromByteArray_def BITS_PER_ENCODING_9 by code_simp
  have d: "lzwDecompress [Chr CHR ''v'', Chr CHR ''a'', Num 256, Chr CHR ''l'', Num 258,
       Chr CHR ''u'', Num 260, Chr CHR ''e'', Num 262, Chr CHR ''O'', Chr (CHR 0x00)]
     = Inr (''vavalvaluvaluevalueO'' @ [CHR 0x00])"
    by (simp add: decompress_eval)
  have "roundtrip ''vavalvaluvaluevalueOvalueOf'' = Some (Inr (''vavalvaluvaluevalueO'' @ [CHR 0x00]))"
    unfolding roundtrip_def compress_inherited_name p using u d by simp
  then show ?thesis using compress_inherited_name by (simp add: BITS_PER_ENCODING_9)
qed

text \<open>
  C6 on this program. For the same text \<open>lzwCompress\<close> inserts ten entries and observes
  ten dictionary sizes. \<open>lzwDecompress\<close>, given the output of \<open>lzwCompress\<close>, observes
  nine and then throws at the built-in function: its text is no property name of the
  dictionary and it does not equal \<open>dictLen\<close>.
\<close>

theorem lockstep_inherited_name:
  "compress_dictLens compress_init ''vavalvaluvaluevalueOvalueOf''
     = [257, 258, 259, 260, 261, 262, 263, 264, 265, 266]
   \<and> decompress_dictLens (decompress_init (fst (lzwCompress ''vavalvaluvaluevalueOvalueOf'')))
        (drop 1 (fst (lzwCompress ''vavalvaluvaluevalueOvalueOf'')))
     = [257, 258, 259, 260, 261, 262, 263, 264, 265]
   \<and> lzwDecompress (fst (lzwCompress ''vavalvaluvaluevalueOvalueOf'')) = Inl BadlyCompressed"
proof -
  have c: "compress_dictLens compress_init ''vavalvaluvaluevalueOvalueOf''
     = [257, 258, 259, 260, 261, 262, 263, 264, 265, 266]"
    by (simp add: compress_eval)
  have t: "decompress_dictLens (decompress_init
       [Chr CHR ''v'', Chr CHR ''a'', Num 256, Chr CHR ''l'', Num 258, Chr CHR ''u'', Num 260,
        Chr CHR ''e'', Num 262, Chr CHR ''O'', Inherited ''valueOf''])
       (drop 1 [Chr CHR ''v'', Chr CHR ''a'', Num 256, Chr CHR ''l'', Num 258, Chr CHR ''u'', Num 260,
        Chr CHR ''e'', Num 262, Chr CHR ''O'', Inherited ''valueOf''])
     = [257, 258, 259, 260, 261, 262, 263, 264, 265]"
    by (simp add: decompress_eval)
  have d: "lzwDecompress
       [Chr CHR ''v'', Chr CHR ''a'', Num 256, Chr CHR ''l'', Num 258, Chr CHR ''u'', Num 260,
        Chr CHR ''e'', Num 262, Chr CHR ''O'', Inherited ''valueOf'']
     = Inl BadlyCompressed"
    by (simp add: decompress_eval)
  show ?thesis using c t d unfolding compress_inherited_name by simp
qed

end
